theory Spec2Isabelle
  imports Main
begin

section \<open>Text\<close>

text \<open>
  A Python \<open>str\<close> is a sequence of code points. The model uses HOL strings with one
  \<open>char\<close> per code point, so it covers the texts whose code points are below 256; the
  character classes below are Python's classes restricted to that range.
\<close>

definition nl :: char where
  "nl = CHR 0x0A"

text \<open>\<open>str.isspace\<close>, which is also the class \<^verbatim>\<open>\s\<close> of \<open>re\<close> on \<open>str\<close> patterns.\<close>

definition isspace :: "char \<Rightarrow> bool" where
  "isspace c =
     (c \<in> set [CHR 0x09, CHR 0x0A, CHR 0x0B, CHR 0x0C, CHR 0x0D, CHR 0x1C, CHR 0x1D, CHR 0x1E,
                CHR 0x1F, CHR 0x20, CHR 0x85, CHR 0xA0])"

text \<open>\<open>str.isdecimal\<close>, the class \<^verbatim>\<open>\d\<close>.\<close>

definition isdecimal :: "char \<Rightarrow> bool" where
  "isdecimal c = (c \<in> set ''0123456789'')"

definition ascii_uppercase :: string where
  "ascii_uppercase = ''ABCDEFGHIJKLMNOPQRSTUVWXYZ''"

definition ascii_lowercase :: string where
  "ascii_lowercase = ''abcdefghijklmnopqrstuvwxyz''"

text \<open>
  \<open>str.isalnum\<close>; the class \<^verbatim>\<open>\w\<close> is \<open>isalnum\<close> or the underscore. Below 256 the
  alphanumeric code points outside ASCII are the ordinal indicators, the superscript
  digits, the micro sign, the vulgar fractions and the letters from 0xC0 on, without the
  multiplication and the division sign.
\<close>

definition isalnum :: "char \<Rightarrow> bool" where
  "isalnum c =
     (isdecimal c \<or> c \<in> set ascii_uppercase \<or> c \<in> set ascii_lowercase \<or>
      c \<in> set [CHR 0xAA, CHR 0xB2, CHR 0xB3, CHR 0xB5, CHR 0xB9, CHR 0xBA, CHR 0xBC, CHR 0xBD,
                CHR 0xBE] \<or>
      (192 \<le> (of_char c :: nat) \<and> of_char c \<noteq> (215 :: nat) \<and> of_char c \<noteq> (247 :: nat)))"

text \<open>
  The case mappings that \<open>re.IGNORECASE\<close> applies. Only their effect on the ASCII
  letters is written out: below 256 no other code point is mapped to or from an ASCII
  letter, and the patterns of this program name ASCII letters only.
\<close>

definition lower :: "char \<Rightarrow> char" where
  "lower c = (case map_of (zip ascii_uppercase ascii_lowercase) c of Some l \<Rightarrow> l | None \<Rightarrow> c)"

definition upper :: "char \<Rightarrow> char" where
  "upper c = (case map_of (zip ascii_lowercase ascii_uppercase) c of Some u \<Rightarrow> u | None \<Rightarrow> c)"

text \<open>\<open>str.strip()\<close> without argument.\<close>

definition strip :: "string \<Rightarrow> string" where
  "strip s = rev (dropWhile isspace (rev (dropWhile isspace s)))"

text \<open>
  \<open>str.split()\<close> without argument: the maximal runs of characters that are not
  whitespace. The first argument is the word being read.
\<close>

fun split_acc :: "string \<Rightarrow> string \<Rightarrow> string list" where
  "split_acc w [] = (if w = [] then [] else [w])"
| "split_acc w (c # cs) =
     (if isspace c then (if w = [] then split_acc [] cs else w # split_acc [] cs)
      else split_acc (w @ [c]) cs)"

definition split_ws :: "string \<Rightarrow> string list" where
  "split_ws s = split_acc [] s"

text \<open>\<open>str(n)\<close> for a natural number.\<close>

fun str_nat :: "nat \<Rightarrow> string" where
  "str_nat n =
     (if n < 10 then [''0123456789'' ! n]
      else str_nat (n div 10) @ [''0123456789'' ! (n mod 10)])"

section \<open>Dictionaries\<close>

text \<open>
  A Python \<open>dict\<close> keeps its keys in insertion order, and two claims are about that
  order, so a dictionary is an association list with distinct keys: assigning to a
  present key replaces the value in place, assigning to a new key appends.
\<close>

fun dict_set :: "('k \<times> 'v) list \<Rightarrow> 'k \<Rightarrow> 'v \<Rightarrow> ('k \<times> 'v) list" where
  "dict_set [] k v = [(k, v)]"
| "dict_set ((k', v') # d) k v = (if k' = k then (k, v) # d else (k', v') # dict_set d k v)"

definition dict_get :: "('k \<times> 'v) list \<Rightarrow> 'k \<Rightarrow> 'v option" where
  "dict_get d k = map_of d k"

definition dict_keys :: "('k \<times> 'v) list \<Rightarrow> 'k list" where
  "dict_keys d = map fst d"

section \<open>Regular expressions\<close>

text \<open>
  The patterns of the program are values of a datatype that follows the parse tree of
  \<open>re\<close> (a literal, the dot, a category, a bracket set; greedy and lazy repetition of a
  single-character item with its bounds; sequence, alternation, the capture group, the
  lookahead \<^verbatim>\<open>(?=...)\<close> and the anchor \<^verbatim>\<open>\Z\<close>), and matching is the backtracking search
  of \<open>re\<close>: alternatives are tried from left to right, a greedy repetition tries the
  longest run first, a lazy one the shortest, and the first way that lets the rest of
  the pattern match is taken.
\<close>

record flags =
  ignorecase :: bool
  dotall :: bool

datatype category = Space | Digit | Word

datatype set_item = Ch char | Range char char | Cat category

datatype atom = Literal char | AnyChar | Category category | In "set_item list"

datatype regex =
    Atom atom
  | Repeat atom nat "nat option" bool
  | Empty
  | Seq regex regex
  | Branch regex regex
  | Group regex
  | Assert regex
  | AtEnd

fun category_ok :: "category \<Rightarrow> char \<Rightarrow> bool" where
  "category_ok Space c = isspace c"
| "category_ok Digit c = isdecimal c"
| "category_ok Word c = (isalnum c \<or> c = CHR ''_'')"

definition in_range :: "char \<Rightarrow> char \<Rightarrow> char \<Rightarrow> bool" where
  "in_range lo hi c = ((of_char lo :: nat) \<le> of_char c \<and> (of_char c :: nat) \<le> of_char hi)"

definition literal_ok :: "flags \<Rightarrow> char \<Rightarrow> char \<Rightarrow> bool" where
  "literal_ok fl p c = (if ignorecase fl then lower c = lower p else c = p)"

fun item_ok :: "flags \<Rightarrow> set_item \<Rightarrow> char \<Rightarrow> bool" where
  "item_ok fl (Ch p) c = literal_ok fl p c"
| "item_ok fl (Range lo hi) c =
     (in_range lo hi c \<or> (ignorecase fl \<and> (in_range lo hi (lower c) \<or> in_range lo hi (upper c))))"
| "item_ok fl (Cat k) c = category_ok k c"

fun atom_ok :: "flags \<Rightarrow> atom \<Rightarrow> char \<Rightarrow> bool" where
  "atom_ok fl (Literal p) c = literal_ok fl p c"
| "atom_ok fl AnyChar c = (dotall fl \<or> c \<noteq> nl)"
| "atom_ok fl (Category k) c = category_ok k c"
| "atom_ok fl (In items) c = list_ex (\<lambda>it. item_ok fl it c) items"

text \<open>
  The result of a match is the text left after it and the text of group 1, if the group
  took part. The matcher is written with a continuation \<open>k\<close> for the rest of the
  pattern: \<open>None\<close> from the continuation makes the matcher try its next alternative.

  \<open>Repeat a mn mx greedy\<close> is \<^verbatim>\<open>a{mn,mx}\<close> (\<open>mx = None\<close>: no upper bound), lazy when
  \<open>greedy\<close> is false.
\<close>

type_synonym mresult = "(string \<times> string option) option"

fun repeat_match ::
  "(char \<Rightarrow> bool) \<Rightarrow> bool \<Rightarrow> nat \<Rightarrow> nat option \<Rightarrow> string \<Rightarrow> (string \<Rightarrow> mresult) \<Rightarrow> mresult" where
  "repeat_match p greedy mn mx [] k = (if mn = 0 then k [] else None)"
| "repeat_match p greedy mn mx (c # cs) k =
     (if greedy then
        (case (if p c \<and> mx \<noteq> Some 0
               then repeat_match p greedy (mn - 1) (map_option (\<lambda>n. n - 1) mx) cs k else None) of
           Some r \<Rightarrow> Some r
         | None \<Rightarrow> if mn = 0 then k (c # cs) else None)
      else
        (case (if mn = 0 then k (c # cs) else None) of
           Some r \<Rightarrow> Some r
         | None \<Rightarrow> if p c \<and> mx \<noteq> Some 0
                   then repeat_match p greedy (mn - 1) (map_option (\<lambda>n. n - 1) mx) cs k else None))"

fun rmatch ::
  "flags \<Rightarrow> regex \<Rightarrow> string \<Rightarrow> string option \<Rightarrow> (string \<Rightarrow> string option \<Rightarrow> mresult) \<Rightarrow> mresult" where
  "rmatch fl (Atom a) s g k =
     (case s of [] \<Rightarrow> None | c # cs \<Rightarrow> if atom_ok fl a c then k cs g else None)"
| "rmatch fl (Repeat a mn mx greedy) s g k =
     repeat_match (atom_ok fl a) greedy mn mx s (\<lambda>s'. k s' g)"
| "rmatch fl Empty s g k = k s g"
| "rmatch fl (Seq r1 r2) s g k = rmatch fl r1 s g (\<lambda>s' g'. rmatch fl r2 s' g' k)"
| "rmatch fl (Branch r1 r2) s g k =
     (case rmatch fl r1 s g k of Some x \<Rightarrow> Some x | None \<Rightarrow> rmatch fl r2 s g k)"
| "rmatch fl (Group r) s g k =
     rmatch fl r s g (\<lambda>s' _. k s' (Some (take (length s - length s') s)))"
| "rmatch fl (Assert r) s g k =
     (case rmatch fl r s g (\<lambda>s' g'. Some (s', g')) of
        None \<Rightarrow> None
      | Some (_, g') \<Rightarrow> k s g')"
| "rmatch fl AtEnd s g k = (if s = [] then k s g else None)"

definition match_at :: "flags \<Rightarrow> regex \<Rightarrow> string \<Rightarrow> mresult" where
  "match_at fl r s = rmatch fl r s None (\<lambda>s' g'. Some (s', g'))"

text \<open>
  \<open>re.search\<close>: the match at the leftmost position that has one. The result is the text
  before the match, the text after it and group 1.
\<close>

fun search :: "flags \<Rightarrow> regex \<Rightarrow> string \<Rightarrow> (string \<times> string \<times> string option) option" where
  "search fl r [] =
     (case match_at fl r [] of Some (rest, g) \<Rightarrow> Some ([], rest, g) | None \<Rightarrow> None)"
| "search fl r (c # cs) =
     (case match_at fl r (c # cs) of
        Some (rest, g) \<Rightarrow> Some ([], rest, g)
      | None \<Rightarrow>
          (case search fl r cs of
             Some (pre, rest, g) \<Rightarrow> Some (c # pre, rest, g)
           | None \<Rightarrow> None))"

definition group_text :: "string option \<Rightarrow> string" where
  "group_text g = (case g of None \<Rightarrow> [] | Some x \<Rightarrow> x)"

text \<open>
  \<open>re.findall\<close> for a pattern with one group: group 1 of the successive matches, each
  searched from the end of the one before. \<open>re.split\<close> for a pattern without groups:
  the pieces between the successive matches. Every pattern of this program consumes at
  least one character; a match that consumes nothing ends both functions here.
\<close>

function findall :: "flags \<Rightarrow> regex \<Rightarrow> string \<Rightarrow> string list" where
  "findall fl r s =
     (case search fl r s of
        None \<Rightarrow> []
      | Some (pre, rest, g) \<Rightarrow>
          group_text g # (if length rest < length s then findall fl r rest else []))"
  by pat_completeness auto
termination
  by (relation "measure (\<lambda>(fl, r, s). length s)") auto

function re_split :: "flags \<Rightarrow> regex \<Rightarrow> string \<Rightarrow> string list" where
  "re_split fl r s =
     (case search fl r s of
        None \<Rightarrow> [s]
      | Some (pre, rest, g) \<Rightarrow>
          (if length rest < length s then pre # re_split fl r rest else [s]))"
  by pat_completeness auto
termination
  by (relation "measure (\<lambda>(fl, r, s). length s)") auto

section \<open>The document processor (document\_processor.py)\<close>

subsection \<open>The patterns\<close>

text \<open>
  Every section pattern has the form
  \<^verbatim>\<open>KEYWORD\s*\n(.*?)(?=\n[A-Z\s]{3,}\n|\n\d+\.|\Z)\<close>, except the last one, whose lookahead
  is \<^verbatim>\<open>(?=\Z)\<close>; all are used with \<open>re.IGNORECASE | re.DOTALL\<close>.
\<close>

definition lits :: "string \<Rightarrow> regex" where
  "lits kw = foldr (\<lambda>c r. Seq (Atom (Literal c)) r) kw Empty"

definition heading_line :: regex where
  "heading_line =
     Seq (Atom (Literal nl))
       (Seq (Repeat (In [Range CHR ''A'' CHR ''Z'', Cat Space]) 3 None True) (Atom (Literal nl)))"

definition numbered_item :: regex where
  "numbered_item =
     Seq (Atom (Literal nl))
       (Seq (Repeat (Category Digit) 1 None True) (Atom (Literal CHR ''.'')))"

definition boundary :: regex where
  "boundary = Assert (Branch heading_line (Branch numbered_item AtEnd))"

definition heading :: "string \<Rightarrow> regex \<Rightarrow> regex" where
  "heading kw ahead =
     Seq (lits kw)
       (Seq (Repeat (Category Space) 0 None True)
          (Seq (Atom (Literal nl))
             (Seq (Group (Repeat AnyChar 0 None False)) ahead)))"

definition re_flags :: flags where
  "re_flags = \<lparr>ignorecase = True, dotall = True\<rparr>"

definition no_flags :: flags where
  "no_flags = \<lparr>ignorecase = False, dotall = False\<rparr>"

definition section_patterns :: "(regex \<times> string) list" where
  "section_patterns =
     [(heading ''ABSTRACT'' boundary, ''Abstract''),
      (heading ''INTRODUCTION'' boundary, ''Introduction''),
      (heading ''METHODOLOGY'' boundary, ''Methodology''),
      (heading ''METHODS'' boundary, ''Methods''),
      (heading ''RESULTS'' boundary, ''Results''),
      (heading ''DISCUSSION'' boundary, ''Discussion''),
      (heading ''CONCLUSION'' boundary, ''Conclusion''),
      (heading ''CONCLUSIONS'' boundary, ''Conclusions''),
      (heading ''REFERENCES'' (Assert AtEnd), ''References'')]"

text \<open>The pattern \<^verbatim>\<open>REFERENCES\s*\n(.*?)(?=\Z)\<close> of \<open>_extract_references\<close>.\<close>

definition ref_pattern :: regex where
  "ref_pattern = heading ''REFERENCES'' (Assert AtEnd)"

text \<open>
  The separator \<^verbatim>\<open>\n(?=\[\d+\]|\d+\.|\[[\w\s,]+\d{4}\])\<close> of \<open>re.split\<close>, used without
  flags.
\<close>

definition entry_ahead :: regex where
  "entry_ahead =
     Branch
       (Seq (Atom (Literal CHR ''[''))
          (Seq (Repeat (Category Digit) 1 None True) (Atom (Literal CHR '']''))))
       (Branch
          (Seq (Repeat (Category Digit) 1 None True) (Atom (Literal CHR ''.'')))
          (Seq (Atom (Literal CHR ''[''))
             (Seq (Repeat (In [Cat Word, Cat Space, Ch CHR '','']) 1 None True)
                (Seq (Repeat (Category Digit) 4 (Some 4) True)
                   (Atom (Literal CHR '']''))))))"

definition ref_separator :: regex where
  "ref_separator = Seq (Atom (Literal nl)) (Assert entry_ahead)"

subsection \<open>\<open>_identify_sections\<close> and \<open>_extract_references\<close>\<close>

text \<open>
  The loop body of \<open>_identify_sections\<close>: \<open>matches = re.findall(...)\<close>, and when the list
  is not empty \<open>sections[section_name] = matches[0].strip()\<close>.
\<close>

definition section_step ::
  "string \<Rightarrow> (string \<times> string) list \<Rightarrow> regex \<times> string \<Rightarrow> (string \<times> string) list" where
  "section_step txt sections ps =
     (case ps of
        (pattern, section_name) \<Rightarrow>
          (let matches = findall re_flags pattern txt
           in if matches \<noteq> [] then dict_set sections section_name (strip (hd matches))
              else sections))"

definition identify_sections :: "string \<Rightarrow> (string \<times> string) list" where
  "identify_sections txt = foldl (section_step txt) [] section_patterns"

definition extract_references :: "string \<Rightarrow> string list" where
  "extract_references txt =
     (case search re_flags ref_pattern txt of
        None \<Rightarrow> []
      | Some (pre, rest, g) \<Rightarrow>
          (let ref_section = group_text g;
               ref_lines = re_split no_flags ref_separator ref_section
           in map strip (filter (\<lambda>ref. 20 < length (strip ref)) ref_lines)))"

subsection \<open>The PDF library and the file system\<close>

text \<open>
  What the program takes from PyMuPDF and \<open>pathlib\<close> is a parameter of the model. A
  call that may raise returns a sum, the exception on the left; the exception carries
  the text that \<open>str(e)\<close> gives. A table is modelled by what its \<open>extract()\<close> returns.
\<close>

datatype py_error = PyError string

fun message :: "py_error \<Rightarrow> string" where
  "message (PyError m) = m"

type_synonym table_data = "string option list list"

type_synonym table = "py_error + table_data"

record page =
  get_text :: "py_error + string"
  find_tables :: "py_error + table list"

record document =
  pages :: "page list"
  doc_metadata :: "(string \<times> string) list"

record env =
  fitz_open :: "string \<Rightarrow> py_error + document"
  glob_pdf :: "string \<Rightarrow> string list"
  path_name :: "string \<Rightarrow> string"

datatype log_entry = LogInfo string | LogWarning string | LogError string

text \<open>The dictionary \<open>content\<close> that \<open>extract_pdf_content\<close> builds.\<close>

record content =
  filename :: string
  total_pages :: nat
  text_content :: string
  structured_content :: "(string \<times> string) list"
  tables :: "(nat \<times> table_data) list"
  figures :: "string list"
  references :: "string list"
  metadata :: "(string \<times> string) list"

text \<open>The state: the cache \<open>self.processed_docs\<close> and what the logger has received.\<close>

record state =
  processed_docs :: "(string \<times> content) list"
  logged :: "log_entry list"

subsection \<open>\<open>extract_pdf_content\<close>\<close>

text \<open>
  The merge of one page's sections into \<open>structured_sections\<close>: the key is created with
  the empty string when it is new, then the page's text is appended. The \<open>None\<close> branch
  stands for the \<open>KeyError\<close> of \<open>+=\<close>, which the line before excludes.
\<close>

definition merge_step :: "(string \<times> string) list \<Rightarrow> string \<times> string \<Rightarrow> (string \<times> string) list" where
  "merge_step structured_sections item =
     (case item of
        (section_title, section_content) \<Rightarrow>
          (let d = (if dict_get structured_sections section_title = None
                    then dict_set structured_sections section_title []
                    else structured_sections)
           in case dict_get d section_title of
                Some old \<Rightarrow> dict_set d section_title (old @ section_content)
              | None \<Rightarrow> d))"

definition merge_sections ::
  "(string \<times> string) list \<Rightarrow> (string \<times> string) list \<Rightarrow> (string \<times> string) list" where
  "merge_sections structured_sections sections = foldl merge_step structured_sections sections"

record progress =
  full_text :: string
  structured_sections :: "(string \<times> string) list"
  tables_found :: "(nat \<times> table_data) list"
  warnings :: "log_entry list"

definition page_marker :: "nat \<Rightarrow> string" where
  "page_marker n = [nl] @ ''--- Page '' @ str_nat n @ '' ---'' @ [nl]"

text \<open>The inner loop over the tables of page \<open>page_num\<close> (counted from 0).\<close>

fun extract_tables :: "nat \<Rightarrow> table list \<Rightarrow> progress \<Rightarrow> progress" where
  "extract_tables page_num [] acc = acc"
| "extract_tables page_num (t # ts) acc =
     extract_tables page_num ts
       (case t of
          Inr table_data \<Rightarrow> acc\<lparr>tables_found := tables_found acc @ [(page_num + 1, table_data)]\<rparr>
        | Inl e \<Rightarrow>
            acc\<lparr>warnings := warnings acc @
              [LogWarning (''Could not extract table from page '' @ str_nat (page_num + 1) @
                 '': '' @ message e)]\<rparr>)"

text \<open>
  The loop over the pages. An exception of \<open>get_text\<close> or \<open>find_tables\<close> leaves the loop;
  it is returned with the warnings logged so far.
\<close>

fun page_loop :: "nat \<Rightarrow> page list \<Rightarrow> progress \<Rightarrow> (py_error \<times> log_entry list) + progress" where
  "page_loop page_num [] acc = Inr acc"
| "page_loop page_num (p # ps) acc =
     (case get_text p of
        Inl e \<Rightarrow> Inl (e, warnings acc)
      | Inr page_text \<Rightarrow>
          (let acc1 = acc\<lparr>full_text := full_text acc @ page_marker (page_num + 1) @ page_text,
                          structured_sections :=
                            merge_sections (structured_sections acc) (identify_sections page_text)\<rparr>
           in case find_tables p of
                Inl e \<Rightarrow> Inl (e, warnings acc1)
              | Inr tbls \<Rightarrow> page_loop (page_num + 1) ps (extract_tables page_num tbls acc1)))"

definition extract_pdf_content :: "env \<Rightarrow> string \<Rightarrow> state \<Rightarrow> (py_error + content) \<times> state" where
  "extract_pdf_content e pdf_path st =
     (case fitz_open e pdf_path of
        Inl err \<Rightarrow>
          (Inl err,
           st\<lparr>logged := logged st @
             [LogError (''Error processing PDF '' @ pdf_path @ '': '' @ message err)]\<rparr>)
      | Inr doc \<Rightarrow>
          (case page_loop 0 (pages doc)
                  \<lparr>full_text = [], structured_sections = [], tables_found = [],
                   warnings = logged st\<rparr> of
             Inl (err, lg) \<Rightarrow>
               (Inl err,
                st\<lparr>logged := lg @
                  [LogError (''Error processing PDF '' @ pdf_path @ '': '' @ message err)]\<rparr>)
           | Inr acc \<Rightarrow>
               (let c = \<lparr>filename = path_name e pdf_path,
                         total_pages = length (pages doc),
                         text_content = full_text acc,
                         structured_content = structured_sections acc,
                         tables = tables_found acc,
                         figures = [],
                         references = extract_references (full_text acc),
                         metadata = doc_metadata doc\<rparr>
                in (Inr c,
                    \<lparr>processed_docs = dict_set (processed_docs st) (path_name e pdf_path) c,
                     logged = warnings acc @
                       [LogInfo (''Successfully processed '' @ path_name e pdf_path)]\<rparr>))))"

subsection \<open>\<open>process_multiple_pdfs\<close> and \<open>get_document_summary\<close>\<close>

fun process_files ::
  "env \<Rightarrow> string list \<Rightarrow> (string \<times> content) list \<Rightarrow> state \<Rightarrow> (string \<times> content) list \<times> state" where
  "process_files e [] results st = (results, st)"
| "process_files e (pdf_file # fs) results st =
     (case extract_pdf_content e pdf_file st of
        (Inr c, st') \<Rightarrow>
          process_files e fs (dict_set results (path_name e pdf_file) c)
            (st'\<lparr>logged := logged st' @ [LogInfo (''Processed: '' @ path_name e pdf_file)]\<rparr>)
      | (Inl err, st') \<Rightarrow>
          process_files e fs results
            (st'\<lparr>logged := logged st' @
               [LogError (''Failed to process '' @ path_name e pdf_file @ '': '' @ message err)]\<rparr>))"

definition process_multiple_pdfs ::
  "env \<Rightarrow> string \<Rightarrow> state \<Rightarrow> (string \<times> content) list \<times> state" where
  "process_multiple_pdfs e pdf_directory st =
     (let pdf_files = glob_pdf e pdf_directory
      in if pdf_files = []
         then ([], st\<lparr>logged := logged st @
                 [LogWarning (''No PDF files found in '' @ pdf_directory)]\<rparr>)
         else process_files e pdf_files [] st)"

datatype py_value = PyStr string | PyInt int | PyList "string list"

definition get_document_summary :: "state \<Rightarrow> string \<Rightarrow> (string \<times> py_value) list" where
  "get_document_summary st fname =
     (case dict_get (processed_docs st) fname of
        None \<Rightarrow> []
      | Some doc \<Rightarrow>
          [(''filename'', PyStr (filename doc)),
           (''pages'', PyInt (int (total_pages doc))),
           (''sections'', PyList (dict_keys (structured_content doc))),
           (''tables_count'', PyInt (int (length (tables doc)))),
           (''references_count'', PyInt (int (length (references doc)))),
           (''word_count'', PyInt (int (length (split_ws (text_content doc)))))])"

section \<open>Conversation history of the agent (ai\_agent.py)\<close>

text \<open>
  One entry of \<open>conversation_history\<close>: the dictionary with the keys
  \<open>query\<close> and \<open>response\<close>.
\<close>

record history_entry =
  query :: string
  response :: string

text \<open>
  \<open>_add_to_history\<close>: append the entry, then keep the last ten entries when the
  list has grown beyond ten (\<open>xs[-10:]\<close> on a list longer than ten).
\<close>

definition add_to_history :: "history_entry list \<Rightarrow> string \<Rightarrow> string \<Rightarrow> history_entry list" where
  "add_to_history conversation_history q r =
     (let h = conversation_history @ [\<lparr>query = q, response = r\<rparr>]
      in if length h > 10 then drop (length h - 10) h else h)"

section \<open>The extraction rule in words\<close>

text \<open>
  The rule for one section, stated without the pattern language, to be compared with
  \<open>identify_sections\<close>.

  A boundary is the end of the text, or a newline that is followed by three or more
  characters, each an ASCII letter of either case or whitespace, and after them a
  newline (\<open>heading_like\<close>), or a newline that is followed by one or more digits and a
  dot (\<open>list_marker\<close>).
\<close>

definition letter_or_space :: "char \<Rightarrow> bool" where
  "letter_or_space c = (c \<in> set ascii_uppercase \<or> c \<in> set ascii_lowercase \<or> isspace c)"

definition heading_like :: "string \<Rightarrow> bool" where
  "heading_like s =
     (case s of
        [] \<Rightarrow> False
      | c # t \<Rightarrow>
          c = nl \<and> list_ex (\<lambda>n. list_all letter_or_space (take n t) \<and> t ! n = nl) [3 ..< length t])"

definition list_marker :: "string \<Rightarrow> bool" where
  "list_marker s =
     (case s of
        [] \<Rightarrow> False
      | c # t \<Rightarrow>
          c = nl \<and> takeWhile isdecimal t \<noteq> [] \<and>
          (case dropWhile isdecimal t of [] \<Rightarrow> False | d # _ \<Rightarrow> d = CHR ''.''))"

definition at_boundary :: "string \<Rightarrow> bool" where
  "at_boundary s = (s = [] \<or> heading_like s \<or> list_marker s)"

definition at_end :: "string \<Rightarrow> bool" where
  "at_end s = (s = [])"

text \<open>The text from the start of \<open>s\<close> up to the first position that is a boundary.\<close>

fun capture_until :: "(string \<Rightarrow> bool) \<Rightarrow> string \<Rightarrow> string" where
  "capture_until stop [] = []"
| "capture_until stop (c # cs) = (if stop (c # cs) then [] else c # capture_until stop cs)"

text \<open>\<open>s\<close> begins with the keyword, in any mixture of upper and lower case.\<close>

fun ci_prefix :: "string \<Rightarrow> string \<Rightarrow> bool" where
  "ci_prefix [] s = True"
| "ci_prefix (k # ks) [] = False"
| "ci_prefix (k # ks) (c # cs) = (if lower c = lower k then ci_prefix ks cs else False)"

text \<open>
  The text after a keyword is a line break when it begins with a run of whitespace that
  contains a newline; the body begins after the last newline of that run.
\<close>

fun line_break_body :: "string \<Rightarrow> string option" where
  "line_break_body [] = None"
| "line_break_body (c # cs) =
     (if isspace c
      then (case line_break_body cs of
              Some b \<Rightarrow> Some b
            | None \<Rightarrow> if c = nl then Some cs else None)
      else None)"

text \<open>The body of the first heading with keyword \<open>kw\<close> in the text, if there is one.\<close>

fun heading_body :: "string \<Rightarrow> string \<Rightarrow> string option" where
  "heading_body kw [] = None"
| "heading_body kw (c # cs) =
     (case (if ci_prefix kw (c # cs) then line_break_body (drop (length kw) (c # cs)) else None) of
        Some b \<Rightarrow> Some b
      | None \<Rightarrow> heading_body kw cs)"

definition section_capture :: "string \<Rightarrow> (string \<Rightarrow> bool) \<Rightarrow> string \<Rightarrow> string option" where
  "section_capture kw stop txt = map_option (\<lambda>b. strip (capture_until stop b)) (heading_body kw txt)"

text \<open>The nine keywords with their boundary and their label.\<close>

definition section_table :: "(string \<times> (string \<Rightarrow> bool) \<times> string) list" where
  "section_table =
     [(''ABSTRACT'', at_boundary, ''Abstract''),
      (''INTRODUCTION'', at_boundary, ''Introduction''),
      (''METHODOLOGY'', at_boundary, ''Methodology''),
      (''METHODS'', at_boundary, ''Methods''),
      (''RESULTS'', at_boundary, ''Results''),
      (''DISCUSSION'', at_boundary, ''Discussion''),
      (''CONCLUSION'', at_boundary, ''Conclusion''),
      (''CONCLUSIONS'', at_boundary, ''Conclusions''),
      (''REFERENCES'', at_end, ''References'')]"

text \<open>
  The number of whitespace-delimited tokens of a text: the characters that are not
  whitespace and stand at the start of the text or right after a whitespace character.
\<close>

definition token_count :: "string \<Rightarrow> nat" where
  "token_count t =
     length (filter (\<lambda>(before, c). isspace before \<and> \<not> isspace c) (zip (CHR '' '' # t) t))"

section \<open>Auxiliary notions\<close>

fun first_some :: "('a \<Rightarrow> 'b option) \<Rightarrow> 'a list \<Rightarrow> 'b option" where
  "first_some k [] = None"
| "first_some k (x # xs) = (case k x of Some r \<Rightarrow> Some r | None \<Rightarrow> first_some k xs)"

text \<open>The texts that a repetition offers to the rest of the pattern, in the order of trial.\<close>

definition candidates :: "(char \<Rightarrow> bool) \<Rightarrow> bool \<Rightarrow> nat \<Rightarrow> string \<Rightarrow> string list" where
  "candidates p greedy mn s =
     (let xs = map (\<lambda>j. drop j s) [mn ..< Suc (length (takeWhile p s))]
      in if greedy then rev xs else xs)"

definition first_capture :: "string \<Rightarrow> regex \<Rightarrow> string option" where
  "first_capture txt pattern =
     (case findall re_flags pattern txt of [] \<Rightarrow> None | m # _ \<Rightarrow> Some (strip m))"

text \<open>The sections of a document whose pages have the given texts.\<close>

definition merge_pages :: "(string \<times> string) list \<Rightarrow> string list \<Rightarrow> (string \<times> string) list" where
  "merge_pages d ts = foldl (\<lambda>acc t. merge_sections acc (identify_sections t)) d ts"

text \<open>
  \<open>DocumentProcessor.__init__\<close>: the cache starts empty. For the examples: a page with
  a text and no table, and the environment in which every path opens as the document
  with the given page texts.
\<close>

definition init_state :: state where
  "init_state = \<lparr>processed_docs = [], logged = []\<rparr>"

definition text_page :: "string \<Rightarrow> page" where
  "text_page t = \<lparr>get_text = Inr t, find_tables = Inr []\<rparr>"

definition text_pdf :: "string list \<Rightarrow> env" where
  "text_pdf ts =
     \<lparr>fitz_open = (\<lambda>p. Inr \<lparr>pages = map text_page ts, doc_metadata = []\<rparr>),
      glob_pdf = (\<lambda>d. []),
      path_name = (\<lambda>p. p)\<rparr>"

text \<open>
  The markers at which the reference block is split, in words: a bracketed number, a
  number followed by a dot, or a bracket that opens one or more word characters,
  whitespace characters or commas, then exactly four digits and the closing bracket.
  A block has a boundary where a newline is followed by a marker.
\<close>

definition digits_then :: "char \<Rightarrow> string \<Rightarrow> bool" where
  "digits_then b s =
     (takeWhile isdecimal s \<noteq> [] \<and>
      (case dropWhile isdecimal s of [] \<Rightarrow> False | d # _ \<Rightarrow> d = b))"

definition word_space_comma :: "char \<Rightarrow> bool" where
  "word_space_comma c = (isalnum c \<or> c = CHR ''_'' \<or> isspace c \<or> c = CHR '','')"

definition year_close :: "string \<Rightarrow> bool" where
  "year_close s =
     (4 \<le> length s \<and> list_all isdecimal (take 4 s) \<and>
      (case drop 4 s of [] \<Rightarrow> False | d # _ \<Rightarrow> d = CHR '']''))"

definition entry_marker :: "string \<Rightarrow> bool" where
  "entry_marker s =
     ((case s of [] \<Rightarrow> False | c # t \<Rightarrow> c = CHR ''['' \<and> digits_then CHR '']'' t) \<or>
      digits_then CHR ''.'' s \<or>
      (case s of
         [] \<Rightarrow> False
       | c # t \<Rightarrow>
           c = CHR ''['' \<and>
           list_ex (\<lambda>j. list_all word_space_comma (take j t) \<and> year_close (drop j t))
             [1 ..< Suc (length t)]))"

fun has_boundary :: "string \<Rightarrow> bool" where
  "has_boundary [] = False"
| "has_boundary (c # t) =
     (if c = nl then (if entry_marker t then True else has_boundary t) else has_boundary t)"

text \<open>The rest of the third marker after the bracket's run: four digits and the bracket.\<close>

definition year_cont :: "string option \<Rightarrow> string \<Rightarrow> mresult" where
  "year_cont g s =
     repeat_match isdecimal True 4 (Some 4) s
       (\<lambda>s'. case s' of [] \<Rightarrow> None | c # cs \<Rightarrow> if c = CHR '']'' then Some (cs, g) else None)"


text \<open>
  The pieces of a reference block, in words: the block is cut at every newline that is
  followed by a marker; the newline belongs to no piece. The first argument is the piece
  being read.
\<close>

fun fragments_from :: "string \<Rightarrow> string \<Rightarrow> string list" where
  "fragments_from cur [] = [cur]"
| "fragments_from cur (c # t) =
     (if c = nl
      then (if entry_marker t then cur # fragments_from [] t else fragments_from (cur @ [c]) t)
      else fragments_from (cur @ [c]) t)"

definition fragments :: "string \<Rightarrow> string list" where
  "fragments b = fragments_from [] b"

text \<open>
  The first exception that the pages of a document raise, in page order: for each page
  \<open>get_text\<close> is called before \<open>find_tables\<close>.
\<close>

fun first_page_error :: "page list \<Rightarrow> py_error option" where
  "first_page_error [] = None"
| "first_page_error (p # ps) =
     (case get_text p of
        Inl err \<Rightarrow> Some err
      | Inr t \<Rightarrow> (case find_tables p of Inl err \<Rightarrow> Some err | Inr tbls \<Rightarrow> first_page_error ps))"
section \<open>Properties of the matcher\<close>

subsection \<open>Repetition\<close>

lemma first_some_append:
  "first_some k (xs @ ys) = (case first_some k xs of Some r \<Rightarrow> Some r | None \<Rightarrow> first_some k ys)"
  by (induction xs) (auto split: option.splits)

lemma first_some_None: "first_some k xs = None \<longleftrightarrow> (\<forall>x\<in>set xs. k x = None)"
  by (induction xs) (auto split: option.splits)

lemma first_some_SomeD: "first_some k xs = Some r \<Longrightarrow> \<exists>x\<in>set xs. k x = Some r"
  by (induction xs) (auto split: option.splits)

lemma upt_shift: "map (\<lambda>j. drop j (c # cs)) [Suc a ..< Suc b] = map (\<lambda>j. drop j cs) [a ..< b]"
proof -
  have "[Suc a ..< Suc b] = map Suc [a ..< b]" by (simp add: map_Suc_upt)
  then show ?thesis by (simp add: comp_def)
qed

lemma candidates_Cons_pos:
  "p c \<Longrightarrow> 0 < mn \<Longrightarrow> candidates p g mn (c # cs) = candidates p g (mn - 1) cs"
  using upt_shift [of c cs "mn - 1" "Suc (length (takeWhile p cs))"]
  by (simp add: candidates_def)

lemma candidates_Cons_zero:
  "p c \<Longrightarrow> candidates p g 0 (c # cs) =
     (if g then candidates p g 0 cs @ [c # cs] else (c # cs) # candidates p g 0 cs)"
  using upt_shift [of c cs 0 "Suc (length (takeWhile p cs))"]
  by (simp add: candidates_def upt_conv_Cons del: upt_Suc)

lemma candidates_Cons_stop:
  "\<not> p c \<Longrightarrow> candidates p g mn (c # cs) = (if mn = 0 then [c # cs] else [])"
  by (simp add: candidates_def)

lemma candidates_Nil: "candidates p g mn [] = (if mn = 0 then [[]] else [])"
  by (simp add: candidates_def)

lemma set_candidates:
  "set (candidates p g mn s) = (\<lambda>j. drop j s) ` {mn .. length (takeWhile p s)}"
  by (auto simp: candidates_def Let_def)

text \<open>
  An unbounded repetition hands the rest of the pattern the text after each admissible
  number of repetitions, the longest first when greedy and the shortest first when lazy.
\<close>

lemma repeat_match_candidates:
  "repeat_match p g mn None s k = first_some k (candidates p g mn s)"
proof (induction s arbitrary: mn)
  case Nil
  show ?case by (simp add: candidates_Nil split: option.splits)
next
  case (Cons c cs)
  show ?case
  proof (cases "p c")
    case False
    then show ?thesis by (simp add: candidates_Cons_stop split: option.splits)
  next
    case True
    show ?thesis
    proof (cases "mn = 0")
      case z: True
      show ?thesis
        using True z Cons [of 0]
        by (cases g) (simp_all add: candidates_Cons_zero first_some_append split: option.splits)
    next
      case False
      then show ?thesis
        using True Cons [of "mn - 1"]
        by (cases g) (simp_all add: candidates_Cons_pos split: option.splits)
    qed
  qed
qed

subsection \<open>Character classes\<close>

lemma isspace_nl [simp]: "isspace nl"
  by (simp add: isspace_def nl_def)

lemma lower_nl [simp]: "lower nl = nl"
  by (simp add: lower_def nl_def ascii_uppercase_def ascii_lowercase_def)

lemma lower_eq_nl [simp]: "lower c = nl \<longleftrightarrow> c = nl"
  by (auto simp: lower_def nl_def ascii_uppercase_def ascii_lowercase_def split: option.splits if_splits)

lemma lower_dot [simp]: "lower c = lower CHR ''.'' \<longleftrightarrow> c = CHR ''.''"
  by (auto simp: lower_def nl_def ascii_uppercase_def ascii_lowercase_def split: option.splits if_splits)

lemma range_AZ:
  "in_range CHR ''A'' CHR ''Z'' c \<longleftrightarrow> c \<in> set ascii_uppercase"
  apply (cases c)
  subgoal for b0 b1 b2 b3 b4 b5 b6 b7
    by (cases b0; cases b1; cases b2; cases b3; cases b4; cases b5; cases b6; cases b7;
        simp add: in_range_def ascii_uppercase_def)
  done

lemma upper_in_uppercase:
  "upper c \<in> set ascii_uppercase \<longleftrightarrow> c \<in> set ascii_uppercase \<or> c \<in> set ascii_lowercase"
  by (auto simp: upper_def ascii_uppercase_def ascii_lowercase_def split: option.splits if_splits)

lemma lower_in_uppercase: "lower c \<notin> set ascii_uppercase"
  by (auto simp: lower_def ascii_uppercase_def ascii_lowercase_def split: option.splits if_splits)

lemma class_letter_or_space:
  "atom_ok re_flags (In [Range CHR ''A'' CHR ''Z'', Cat Space]) = letter_or_space"
  by (rule ext)
     (auto simp: re_flags_def range_AZ upper_in_uppercase lower_in_uppercase letter_or_space_def)

lemma literal_nl [simp]: "literal_ok re_flags nl c \<longleftrightarrow> c = nl"
  by (simp add: literal_ok_def re_flags_def)

lemma literal_dot [simp]: "literal_ok re_flags CHR ''.'' c \<longleftrightarrow> c = CHR ''.''"
  by (simp add: literal_ok_def re_flags_def)

lemma any_char [simp]: "atom_ok re_flags AnyChar = (\<lambda>c. True)"
  by (rule ext) (simp add: re_flags_def)

lemma literal_ci: "literal_ok re_flags a c \<longleftrightarrow> lower c = lower a"
  by (simp add: literal_ok_def re_flags_def)

lemma not_decimal_dot: "\<not> isdecimal CHR ''.''"
  by (simp add: isdecimal_def)

subsection \<open>The lookahead\<close>

lemma list_all_take_takeWhile:
  "j \<le> length t \<Longrightarrow> list_all p (take j t) \<longleftrightarrow> j \<le> length (takeWhile p t)"
proof (induction t arbitrary: j)
  case Nil
  then show ?case by simp
next
  case (Cons c cs)
  then show ?case by (cases j) auto
qed

lemma drop_eq_Cons_iff: "drop j t = x # xs \<longleftrightarrow> j < length t \<and> t ! j = x \<and> xs = drop (Suc j) t"
proof
  assume a: "drop j t = x # xs"
  then have j: "j < length t" by (cases "j < length t") auto
  from Cons_nth_drop_Suc [OF j] a show "j < length t \<and> t ! j = x \<and> xs = drop (Suc j) t"
    using j by simp
next
  assume "j < length t \<and> t ! j = x \<and> xs = drop (Suc j) t"
  then show "drop j t = x # xs" using Cons_nth_drop_Suc [of j t] by simp
qed

lemma heading_line_match:
  "rmatch re_flags heading_line s g (\<lambda>s' g'. Some (s', g')) = None \<longleftrightarrow> \<not> heading_like s"
proof (cases s)
  case Nil
  then show ?thesis by (simp add: heading_line_def heading_like_def)
next
  case (Cons c t)
  let ?n = "length (takeWhile letter_or_space t)"
  let ?k = "\<lambda>s'. case s' of [] \<Rightarrow> None | c' # cs' \<Rightarrow> if c' = nl then Some (cs', g) else None"
  have k: "?k (drop j t) = None \<longleftrightarrow> \<not> (j < length t \<and> t ! j = nl)" for j
    by (auto simp: drop_eq_Cons_iff split: list.splits)
  have "rmatch re_flags heading_line s g (\<lambda>s' g'. Some (s', g')) = None \<longleftrightarrow>
        \<not> (c = nl \<and> (\<exists>j\<in>{3 .. ?n}. ?k (drop j t) \<noteq> None))"
    by (simp add: Cons heading_line_def class_letter_or_space repeat_match_candidates
          first_some_None set_candidates del: not_None_eq)
  also have "\<dots> \<longleftrightarrow> \<not> (c = nl \<and> (\<exists>j\<in>{3 .. ?n}. j < length t \<and> t ! j = nl))"
    by (simp only: k not_not)
  also have "\<dots> \<longleftrightarrow> \<not> heading_like s"
    using list_all_take_takeWhile [of _ t letter_or_space]
    by (auto simp: Cons heading_like_def list_ex_iff)
  finally show ?thesis .
qed

lemma heading_line_group:
  assumes "rmatch re_flags heading_line s g (\<lambda>s' g'. Some (s', g')) = Some (r, g')"
  shows "g' = g"
proof (cases s)
  case Nil
  with assms show ?thesis by (simp add: heading_line_def)
next
  case (Cons c t)
  with assms show ?thesis
    by (auto simp: heading_line_def repeat_match_candidates
          split: if_splits list.splits dest!: first_some_SomeD)
qed

lemma numbered_item_match:
  "rmatch re_flags numbered_item s g (\<lambda>s' g'. Some (s', g')) = None \<longleftrightarrow> \<not> list_marker s"
proof (cases s)
  case Nil
  then show ?thesis by (simp add: numbered_item_def list_marker_def)
next
  case (Cons c t)
  let ?n = "length (takeWhile isdecimal t)"
  let ?k = "\<lambda>s'. case s' of [] \<Rightarrow> None | c' # cs' \<Rightarrow> if c' = CHR ''.'' then Some (cs', g) else None"
  have k: "?k (drop j t) = None \<longleftrightarrow> \<not> (j < length t \<and> t ! j = CHR ''.'')" for j
    by (auto simp: drop_eq_Cons_iff split: list.splits)
  have digit: "t ! j \<noteq> CHR ''.''" if "j < ?n" for j
  proof -
    from that have "takeWhile isdecimal t ! j \<in> set (takeWhile isdecimal t)" by simp
    then have "isdecimal (takeWhile isdecimal t ! j)" by (rule set_takeWhileD [THEN conjunct2])
    with that show ?thesis using not_decimal_dot by (auto simp: takeWhile_nth)
  qed
  have cat: "atom_ok re_flags (Category Digit) = isdecimal" by (rule ext) simp
  have "rmatch re_flags numbered_item s g (\<lambda>s' g'. Some (s', g')) = None \<longleftrightarrow>
        \<not> (c = nl \<and> (\<exists>j\<in>{1 .. ?n}. ?k (drop j t) \<noteq> None))"
    by (simp add: Cons numbered_item_def cat repeat_match_candidates
          first_some_None set_candidates del: not_None_eq)
  also have "\<dots> \<longleftrightarrow> \<not> (c = nl \<and> (\<exists>j\<in>{1 .. ?n}. j < length t \<and> t ! j = CHR ''.''))"
    by (simp only: k not_not)
  also have "\<dots> \<longleftrightarrow> \<not> (c = nl \<and> 1 \<le> ?n \<and> ?n < length t \<and> t ! ?n = CHR ''.'')"
    using digit by (metis atLeastAtMost_iff le_neq_implies_less order_refl)
  also have "\<dots> \<longleftrightarrow> \<not> list_marker s"
    by (auto simp: Cons list_marker_def dropWhile_eq_drop drop_eq_Cons_iff Suc_le_eq
          split: list.splits)
  finally show ?thesis .
qed

lemma numbered_item_group:
  assumes "rmatch re_flags numbered_item s g (\<lambda>s' g'. Some (s', g')) = Some (r, g')"
  shows "g' = g"
proof (cases s)
  case Nil
  with assms show ?thesis by (simp add: numbered_item_def)
next
  case (Cons c t)
  with assms show ?thesis
    by (auto simp: numbered_item_def repeat_match_candidates
          split: if_splits list.splits dest!: first_some_SomeD)
qed

lemma boundary_match:
  "rmatch re_flags boundary s g k = (if at_boundary s then k s g else None)"
proof (cases "rmatch re_flags heading_line s g (\<lambda>s' g'. Some (s', g'))")
  case (Some x)
  then have "heading_like s" using heading_line_match [of s g] by simp
  moreover from Some heading_line_group [of s g "fst x" "snd x"] have "snd x = g" by simp
  ultimately show ?thesis using Some by (auto simp: boundary_def at_boundary_def split: prod.splits)
next
  case h: None
  then have nh: "\<not> heading_like s" using heading_line_match [of s g] by simp
  show ?thesis
  proof (cases "rmatch re_flags numbered_item s g (\<lambda>s' g'. Some (s', g'))")
    case (Some x)
    then have "list_marker s" using numbered_item_match [of s g] by simp
    moreover from Some numbered_item_group [of s g "fst x" "snd x"] have "snd x = g" by simp
    ultimately show ?thesis using Some h by (auto simp: boundary_def at_boundary_def split: prod.splits)
  next
    case None
    then have "\<not> list_marker s" using numbered_item_match [of s g] by simp
    with nh None h show ?thesis by (simp add: boundary_def at_boundary_def)
  qed
qed

lemma at_end_match:
  "rmatch re_flags (Assert AtEnd) s g k = (if at_end s then k s g else None)"
  by (simp add: at_end_def)

subsection \<open>The heading pattern\<close>

lemma lits_match:
  "rmatch re_flags (lits kw) s g k = (if ci_prefix kw s then k (drop (length kw) s) g else None)"
proof (induction kw arbitrary: s)
  case Nil
  show ?case by (simp add: lits_def)
next
  case (Cons a kw)
  have unfold: "lits (a # kw) = Seq (Atom (Literal a)) (lits kw)" by (simp add: lits_def)
  show ?case
    by (cases s) (simp_all add: unfold Cons literal_ci)
qed

lemma capture_until_prefix:
  "take (length (capture_until stop s)) s = capture_until stop s"
  by (induction s) auto

lemma capture_until_length: "length (capture_until stop s) \<le> length s"
  by (induction s) auto

lemma lazy_capture:
  assumes "stop []"
  shows "repeat_match (\<lambda>c. True) False 0 None s
           (\<lambda>s'. if stop s' then Some (s', Some (G s')) else None) =
         Some (drop (length (capture_until stop s)) s,
               Some (G (drop (length (capture_until stop s)) s)))"
proof (induction s)
  case Nil
  show ?case using assms by simp
next
  case (Cons c cs)
  show ?case using Cons by simp
qed

lemma greedy_space_newline:
  "repeat_match isspace True 0 None r
     (\<lambda>s1. case s1 of [] \<Rightarrow> None | c # cs \<Rightarrow> if c = nl then Some (F cs) else None) =
   (case line_break_body r of None \<Rightarrow> None | Some b \<Rightarrow> Some (F b))"
proof (induction r)
  case Nil
  show ?case by simp
next
  case (Cons c cs)
  show ?case using Cons by (auto split: option.splits)
qed

lemma heading_match:
  assumes ahead: "\<And>s g k. rmatch re_flags ahead s g k = (if stop s then k s g else None)"
    and stop: "stop []"
  shows "match_at re_flags (heading kw ahead) s =
           (if ci_prefix kw s
            then (case line_break_body (drop (length kw) s) of
                    None \<Rightarrow> None
                  | Some b \<Rightarrow>
                      Some (drop (length (capture_until stop b)) b, Some (capture_until stop b)))
            else None)"
proof -
  have space: "atom_ok re_flags (Category Space) = isspace" by (rule ext) simp
  have body: "rmatch re_flags (Seq (Group (Repeat AnyChar 0 None False)) ahead) cs g
                (\<lambda>s' g'. Some (s', g')) =
              Some (drop (length (capture_until stop cs)) cs, Some (capture_until stop cs))" for cs g
    using lazy_capture [of stop cs "\<lambda>s'. take (length cs - length s') cs", OF stop]
      capture_until_length [of stop cs]
    by (simp add: ahead capture_until_prefix)
  have nlb: "rmatch re_flags (Seq (Atom (Literal nl)) (Seq (Group (Repeat AnyChar 0 None False)) ahead))
               s1 g (\<lambda>s' g'. Some (s', g')) =
             (case s1 of [] \<Rightarrow> None
              | c # cs \<Rightarrow> if c = nl
                  then Some (drop (length (capture_until stop cs)) cs, Some (capture_until stop cs))
                  else None)" for s1 g
    using body by (cases s1) (simp_all del: rmatch.simps(4) add: rmatch.simps(4) [of _ "Atom (Literal nl)"])
  show ?thesis
    unfolding match_at_def heading_def
    by (simp add: lits_match space nlb greedy_space_newline
          del: rmatch.simps(4) add: rmatch.simps(4) [of _ "lits kw"] rmatch.simps(4) [of _ "Repeat (Category Space) 0 None True"])
qed

lemma heading_search:
  assumes ahead: "\<And>s g k. rmatch re_flags ahead s g k = (if stop s then k s g else None)"
    and stop: "stop []"
  shows "map_option (\<lambda>(pre, rest, g). g) (search re_flags (heading kw ahead) s) =
         map_option (\<lambda>b. Some (capture_until stop b)) (heading_body kw s)"
proof (induction s)
  case Nil
  show ?case by (simp add: heading_match [of ahead stop, OF ahead stop] split: option.splits)
next
  case (Cons c cs)
  show ?case
    using Cons
    by (auto simp: heading_match [of ahead stop, OF ahead stop] split: option.splits prod.splits)
qed

declare findall.simps [simp del]
declare re_split.simps [simp del]

lemma first_capture_search:
  "first_capture txt pattern =
     map_option (\<lambda>(pre, rest, g). strip (group_text g)) (search re_flags pattern txt)"
  unfolding first_capture_def by (subst findall.simps) (simp split: option.splits)

lemma first_capture_heading:
  assumes ahead: "\<And>s g k. rmatch re_flags ahead s g k = (if stop s then k s g else None)"
    and stop: "stop []"
  shows "first_capture txt (heading kw ahead) = section_capture kw stop txt"
proof -
  have "first_capture txt (heading kw ahead) =
        map_option (\<lambda>g. strip (group_text g))
          (map_option (\<lambda>(pre, rest, g). g) (search re_flags (heading kw ahead) txt))"
    by (simp add: first_capture_search option.map_comp comp_def case_prod_unfold)
  also have "\<dots> = section_capture kw stop txt"
    by (simp add: heading_search [of ahead stop, OF ahead stop] section_capture_def
          option.map_comp comp_def group_text_def)
  finally show ?thesis .
qed

lemma first_capture_boundary:
  "first_capture txt (heading kw boundary) = section_capture kw at_boundary txt"
  by (rule first_capture_heading) (simp_all add: boundary_match at_boundary_def)

lemma first_capture_at_end:
  "first_capture txt (heading kw (Assert AtEnd)) = section_capture kw at_end txt"
  by (rule first_capture_heading) (simp_all add: at_end_def)

subsection \<open>The loop over the patterns\<close>

lemma section_step_first_capture:
  "section_step txt d (p, n) = (case first_capture txt p of None \<Rightarrow> d | Some v \<Rightarrow> dict_set d n v)"
  by (simp add: section_step_def first_capture_def split: list.splits)

lemma dict_set_new: "k \<notin> fst ` set d \<Longrightarrow> dict_set d k v = d @ [(k, v)]"
  by (induction d) auto

lemma map_of_dict_set: "map_of (dict_set d k v) = (map_of d)(k \<mapsto> v)"
  by (induction d) (auto simp: fun_eq_iff)

lemma foldl_section_step:
  "distinct (map snd ps) \<Longrightarrow> snd ` set ps \<inter> fst ` set d = {} \<Longrightarrow>
   foldl (section_step txt) d ps =
     d @ List.map_filter (\<lambda>(p, n). map_option (Pair n) (first_capture txt p)) ps"
proof (induction ps arbitrary: d)
  case Nil
  show ?case by simp
next
  case (Cons a ps)
  obtain p n where a: "a = (p, n)" by (cases a)
  show ?case
  proof (cases "first_capture txt p")
    case None
    with Cons show ?thesis by (simp add: a section_step_first_capture)
  next
    case (Some v)
    from Cons.prems have new: "n \<notin> fst ` set d" by (auto simp: a)
    from Cons.prems have "snd ` set ps \<inter> fst ` set (d @ [(n, v)]) = {}"
      by (auto simp: a rev_image_eqI)
    with Cons.IH [of "d @ [(n, v)]"] Cons.prems show ?thesis
      by (simp add: a Some section_step_first_capture dict_set_new [OF new])
  qed
qed

lemma map_filter_related:
  "list_all2 (\<lambda>x y. f x = g y) xs ys \<Longrightarrow> List.map_filter f xs = List.map_filter g ys"
  by (induction xs ys rule: list_all2_induct) (simp_all split: option.splits)

text \<open>
  \<open>_identify_sections\<close> returns, in the order of the table, the label and the capture of
  every keyword that has a heading in the text.
\<close>

lemma identify_sections_captures:
  "identify_sections txt =
     List.map_filter (\<lambda>(kw, stop, n). map_option (Pair n) (section_capture kw stop txt)) section_table"
proof -
  have "identify_sections txt =
        [] @ List.map_filter (\<lambda>(p, n). map_option (Pair n) (first_capture txt p)) section_patterns"
    unfolding identify_sections_def
    by (rule foldl_section_step) (simp_all add: section_patterns_def)
  also have "\<dots> = List.map_filter (\<lambda>(kw, stop, n). map_option (Pair n) (section_capture kw stop txt))
                     section_table"
    unfolding append_Nil
    by (rule map_filter_related)
       (simp add: section_patterns_def section_table_def first_capture_boundary first_capture_at_end)
  finally show ?thesis .
qed

subsection \<open>Lookup in the result of \<open>_identify_sections\<close>\<close>

lemma map_of_map_filter:
  "distinct (map (\<lambda>(kw, stop, n). n) tbl) \<Longrightarrow> (kw, stop, n) \<in> set tbl \<Longrightarrow>
   map_of (List.map_filter (\<lambda>(kw, stop, n). map_option (Pair n) (F kw stop)) tbl) n = F kw stop"
proof (induction tbl)
  case Nil
  then show ?case by simp
next
  case (Cons a tbl)
  obtain kw' stop' n' where a: "a = (kw', stop', n')" by (cases a)
  show ?case
  proof (cases "(kw, stop, n) = a")
    case True
    have "map_of (List.map_filter (\<lambda>(kw, stop, n). map_option (Pair n) (F kw stop)) tbl) n = None"
      using Cons.prems(1) True a
      by (force simp: map_of_eq_None_iff List.map_filter_def image_iff)
    with True a show ?thesis by (cases "F kw stop") auto
  next
    case False
    with Cons.prems have inn: "(kw, stop, n) \<in> set tbl" by simp
    with Cons.prems(1) a have "n \<noteq> n'" by (auto simp: image_iff)
    with Cons.IH [OF _ inn] Cons.prems(1) a show ?thesis by (cases "F kw' stop'") auto
  qed
qed

lemma section_lookup:
  "(kw, stop, n) \<in> set section_table \<Longrightarrow>
   dict_get (identify_sections txt) n = section_capture kw stop txt"
  unfolding dict_get_def identify_sections_captures
  by (rule map_of_map_filter [where F = "\<lambda>kw stop. section_capture kw stop txt"])
     (simp_all add: section_table_def)

lemma dict_keys_map_filter:
  "dict_keys (List.map_filter (\<lambda>(kw, stop, n). map_option (Pair n) (F kw stop)) tbl) =
   map (\<lambda>(kw, stop, n). n) (filter (\<lambda>(kw, stop, n). F kw stop \<noteq> None) tbl)"
  by (induction tbl) (auto simp: dict_keys_def split: option.splits)

lemma identify_sections_distinct: "distinct (dict_keys (identify_sections txt))"
proof -
  have "distinct (map (\<lambda>(kw, stop, n). n) section_table)" by (simp add: section_table_def)
  then show ?thesis
    unfolding identify_sections_captures dict_keys_map_filter
    by (rule distinct_map_filter)
qed

subsection \<open>The capture\<close>


subsection \<open>Evaluation\<close>

lemma lower_Char:
  "lower (Char b0 b1 b2 b3 b4 b5 b6 b7) =
     Char b0 b1 b2 b3 b4
       (b5 \<or> (b6 \<and> \<not> b7 \<and> (b0 \<or> b1 \<or> b2 \<or> b3 \<or> b4) \<and> \<not> (b4 \<and> b3 \<and> (b2 \<or> (b1 \<and> b0)))))
       b6 b7"
  by (cases b5; cases b6; cases b7;
      simp add: lower_def ascii_uppercase_def ascii_lowercase_def;
      cases b0; cases b1; cases b2; cases b3; cases b4;
      simp add: lower_def ascii_uppercase_def ascii_lowercase_def)

lemma in_set_drop_iff:
  "x \<in> set (drop m xs) \<longleftrightarrow> (\<exists>j. m \<le> j \<and> j < length xs \<and> xs ! j = x)"
proof
  assume "x \<in> set (drop m xs)"
  then obtain i where i: "i < length (drop m xs)" "drop m xs ! i = x"
    by (auto simp: in_set_conv_nth)
  then have "m \<le> m + i \<and> m + i < length xs \<and> xs ! (m + i) = x" by auto
  then show "\<exists>j. m \<le> j \<and> j < length xs \<and> xs ! j = x" by blast
next
  assume "\<exists>j. m \<le> j \<and> j < length xs \<and> xs ! j = x"
  then obtain j where j: "m \<le> j" "j < length xs" "xs ! j = x" by blast
  then have "j - m < length (drop m xs)" "drop m xs ! (j - m) = x" by auto
  then show "x \<in> set (drop m xs)" by (auto simp: in_set_conv_nth)
qed

lemma heading_like_Cons:
  "heading_like (c # t) =
     (if c = nl then nl \<in> set (drop 3 (takeWhile letter_or_space t)) else False)"
proof -
  let ?n = "length (takeWhile letter_or_space t)"
  have "(\<exists>j\<in>{3 ..< length t}. list_all letter_or_space (take j t) \<and> t ! j = nl) \<longleftrightarrow>
        (\<exists>j. 3 \<le> j \<and> j < ?n \<and> takeWhile letter_or_space t ! j = nl)" (is "?l = ?r")
  proof
    assume ?l
    then obtain j where j: "3 \<le> j" "j < length t" "list_all letter_or_space (take j t)" "t ! j = nl"
      by auto
    then have "j \<le> ?n" using list_all_take_takeWhile [of j t letter_or_space] by simp
    moreover have "j \<noteq> ?n"
    proof
      assume "j = ?n"
      with j(2) have "\<not> letter_or_space (t ! j)" using nth_length_takeWhile [of letter_or_space t] by simp
      with j(4) show False by (simp add: letter_or_space_def)
    qed
    ultimately have "j < ?n" by simp
    with j show ?r by (auto simp: takeWhile_nth)
  next
    assume ?r
    then obtain j where j: "3 \<le> j" "j < ?n" "takeWhile letter_or_space t ! j = nl" by auto
    have le: "?n \<le> length t" by (rule length_takeWhile_le)
    with j have "list_all letter_or_space (take j t)"
      using list_all_take_takeWhile [of j t letter_or_space] by simp
    with j le show ?l by (auto simp: takeWhile_nth)
  qed
  also have "?r \<longleftrightarrow> nl \<in> set (drop 3 (takeWhile letter_or_space t))"
    by (simp only: in_set_drop_iff)
  finally show ?thesis by (simp add: heading_like_def list_ex_iff)
qed

lemma list_marker_Cons:
  "list_marker (c # t) =
     (if c = nl
      then (if takeWhile isdecimal t = [] then False
            else (case dropWhile isdecimal t of [] \<Rightarrow> False | d # _ \<Rightarrow> d = CHR ''.''))
      else False)"
  by (simp add: list_marker_def)

lemma at_boundary_simps:
  "at_boundary [] = True"
  "at_boundary (c # t) = (if c = nl then heading_like (c # t) \<or> list_marker (c # t) else False)"
  by (simp_all add: at_boundary_def heading_like_def list_marker_def)

lemma capture_until_at_end: "capture_until at_end s = s"
  by (induction s) (simp_all add: at_end_def)

lemmas eval_simps =
  identify_sections_captures section_table_def section_capture_def nl_def lower_Char
  heading_like_Cons list_marker_Cons at_boundary_simps capture_until_at_end strip_def
  isspace_def isdecimal_def letter_or_space_def ascii_uppercase_def ascii_lowercase_def
  dict_get_def dict_keys_def at_end_def

section \<open>The section extractor\<close>

lemma scenario_a_eval:
  "identify_sections ''ABSTRACT\<newline>We study X.\<newline>INTRODUCTION\<newline>X matters because Y.'' =
     [(''Abstract'', ''We study X.''), (''Introduction'', ''X matters because Y.'')]"
  by (simp add: eval_simps)

text \<open>
  C1 (as stated). For the page text \<open>ABSTRACT / We study X. / INTRODUCTION / X matters
  because Y.\<close> the claim gives the mapping with the single key \<open>Abstract\<close>. The program
  returns a second key, so the mapping is not the one of the claim.
\<close>

theorem scenario_a_not_abstract_only:
  "identify_sections ''ABSTRACT\<newline>We study X.\<newline>INTRODUCTION\<newline>X matters because Y.'' \<noteq>
     [(''Abstract'', ''We study X.'')]"
  by (simp add: scenario_a_eval)

text \<open>
  C1 (amended). For that page text \<open>_identify_sections\<close> returns \<open>Abstract\<close> mapped to
  \<open>We study X.\<close>, the trimmed text between the two heading lines, and
  \<open>Introduction\<close> mapped to \<open>X matters because Y.\<close>, in this order and nothing else.
\<close>

theorem scenario_a_sections:
  "identify_sections ''ABSTRACT\<newline>We study X.\<newline>INTRODUCTION\<newline>X matters because Y.'' =
     [(''Abstract'', ''We study X.''), (''Introduction'', ''X matters because Y.'')] \<and>
   dict_get (identify_sections ''ABSTRACT\<newline>We study X.\<newline>INTRODUCTION\<newline>X matters because Y.'')
     ''Abstract'' = Some ''We study X.''"
  by (simp add: scenario_a_eval dict_get_def)




text \<open>
  C9 (as stated). The claim excludes the label \<open>Conclusion\<close> for every text that begins
  with the line \<open>CONCLUSIONS\<close>. When the body has a \<open>CONCLUSION\<close> heading of its own, the
  label is returned.
\<close>

theorem conclusion_in_body:
  "dict_get (identify_sections ''CONCLUSIONS\<newline>CONCLUSION\<newline>x'') ''Conclusion'' = Some ''x''"
  by (simp add: eval_simps)

lemma heading_body_conclusions:
  "heading_body ''CONCLUSIONS'' (''CONCLUSIONS'' @ nl # body) \<noteq> None"
  by (simp add: lower_Char split: option.splits)

lemma heading_body_conclusion:
  "heading_body ''CONCLUSION'' (''CONCLUSIONS'' @ nl # body) = heading_body ''CONCLUSION'' body"
  by (simp add: lower_Char nl_def isspace_def)

lemma line_break_body_newline:
  "line_break_body r = Some b \<Longrightarrow> \<exists>ws. r = ws @ nl # b \<and> list_all isspace ws"
proof (induction r arbitrary: b)
  case Nil
  then show ?case by simp
next
  case (Cons c cs)
  show ?case
  proof (cases "line_break_body cs")
    case None
    with Cons.prems have "c # cs = [] @ nl # b \<and> list_all isspace []"
      by (auto split: if_splits)
    then show ?thesis by blast
  next
    case (Some b')
    with Cons.prems have c: "isspace c" and b: "b' = b" by (auto split: if_splits)
    from Cons.IH [OF Some] obtain ws where "cs = ws @ nl # b'" "list_all isspace ws" by blast
    with c b have "c # cs = (c # ws) @ nl # b \<and> list_all isspace (c # ws)" by simp
    then show ?thesis by blast
  qed
qed

lemma line_break_body_run:
  "list_all isspace ws \<Longrightarrow> line_break_body (ws @ nl # rest) \<noteq> None"
  by (induction ws) (auto simp: isspace_nl split: option.splits)

lemma line_break_iff:
  "line_break_body s \<noteq> None \<longleftrightarrow> (\<exists>ws rest. s = ws @ nl # rest \<and> list_all isspace ws)"
proof
  assume "line_break_body s \<noteq> None"
  then obtain b where "line_break_body s = Some b" by blast
  from line_break_body_newline [OF this] show "\<exists>ws rest. s = ws @ nl # rest \<and> list_all isspace ws"
    by blast
next
  assume "\<exists>ws rest. s = ws @ nl # rest \<and> list_all isspace ws"
  then show "line_break_body s \<noteq> None" using line_break_body_run by blast
qed

lemma ci_prefix_iff:
  "ci_prefix kw s \<longleftrightarrow> (\<exists>h r. s = h @ r \<and> map lower h = map lower kw)"
proof (induction kw s rule: ci_prefix.induct)
  case (1 s)
  show ?case by simp
next
  case (2 k ks)
  show ?case by simp
next
  case (3 k ks c cs)
  show ?case
  proof (cases "lower c = lower k")
    case True
    have "(\<exists>h r. c # cs = h @ r \<and> map lower h = map lower (k # ks)) \<longleftrightarrow>
          (\<exists>h r. cs = h @ r \<and> map lower h = map lower ks)"
    proof
      assume "\<exists>h r. c # cs = h @ r \<and> map lower h = map lower (k # ks)"
      then obtain h r where h: "c # cs = h @ r" "map lower h = map lower (k # ks)" by blast
      from h(2) obtain c' h' where h': "h = c' # h'" by (cases h) auto
      with h have "cs = h' @ r \<and> map lower h' = map lower ks" by simp
      then show "\<exists>h r. cs = h @ r \<and> map lower h = map lower ks" by blast
    next
      assume "\<exists>h r. cs = h @ r \<and> map lower h = map lower ks"
      then obtain h r where "cs = h @ r" "map lower h = map lower ks" by blast
      with True have "c # cs = (c # h) @ r \<and> map lower (c # h) = map lower (k # ks)" by simp
      then show "\<exists>h r. c # cs = h @ r \<and> map lower h = map lower (k # ks)" by blast
    qed
    with True 3 show ?thesis by simp
  next
    case False
    have "\<not> (\<exists>h r. c # cs = h @ r \<and> map lower h = map lower (k # ks))"
    proof
      assume "\<exists>h r. c # cs = h @ r \<and> map lower h = map lower (k # ks)"
      then obtain h r where h: "c # cs = h @ r" "map lower h = map lower (k # ks)" by blast
      from h(2) obtain c' h' where h': "h = c' # h'" by (cases h) auto
      with h have "lower c = lower k" by simp
      with False show False by simp
    qed
    with False show ?thesis by simp
  qed
qed

lemma heading_body_iff:
  "heading_body kw txt \<noteq> None \<longleftrightarrow>
     (\<exists>pre s. txt = pre @ s \<and> ci_prefix kw s \<and> line_break_body (drop (length kw) s) \<noteq> None)"
proof (induction "txt")
  case Nil
  show ?case by (cases kw) simp_all
next
  case (Cons c cs)
  let ?here = "ci_prefix kw (c # cs) \<and> line_break_body (drop (length kw) (c # cs)) \<noteq> None"
  let ?P = "\<lambda>t. \<exists>pre s. t = pre @ s \<and> ci_prefix kw s \<and> line_break_body (drop (length kw) s) \<noteq> None"
  have a: "heading_body kw (c # cs) \<noteq> None \<longleftrightarrow> ?here \<or> heading_body kw cs \<noteq> None"
    by (auto split: option.splits)
  have b: "?P (c # cs) \<longleftrightarrow> ?here \<or> ?P cs"
  proof
    assume "?P (c # cs)"
    then obtain pre s where p: "c # cs = pre @ s" "ci_prefix kw s"
        "line_break_body (drop (length kw) s) \<noteq> None" by blast
    show "?here \<or> ?P cs"
    proof (cases pre)
      case Nil
      with p show ?thesis by simp
    next
      case (Cons p' pre')
      with p have "cs = pre' @ s" by simp
      with p show ?thesis by blast
    qed
  next
    assume h: "?here \<or> ?P cs"
    show "?P (c # cs)"
    proof (cases "?here")
      case True
      then have "c # cs = [] @ (c # cs) \<and> ci_prefix kw (c # cs) \<and>
                 line_break_body (drop (length kw) (c # cs)) \<noteq> None" by simp
      then show ?thesis by blast
    next
      case False
      with h obtain pre s where "cs = pre @ s" "ci_prefix kw s"
        "line_break_body (drop (length kw) s) \<noteq> None" by blast
      then have "c # cs = (c # pre) @ s \<and> ci_prefix kw s \<and>
                 line_break_body (drop (length kw) s) \<noteq> None" by simp
      then show ?thesis by blast
    qed
  qed
  from a b Cons show ?case by simp
qed

lemma heading_recognised:
  "heading_body kw txt \<noteq> None \<longleftrightarrow>
     (\<exists>pre h ws rest. txt = pre @ h @ ws @ nl # rest \<and> map lower h = map lower kw \<and>
        list_all isspace ws)"
proof
  assume "heading_body kw txt \<noteq> None"
  then obtain pre s where s: "txt = pre @ s" "ci_prefix kw s"
      "line_break_body (drop (length kw) s) \<noteq> None"
    unfolding heading_body_iff by blast
  from s(2) obtain h r where h: "s = h @ r" "map lower h = map lower kw"
    unfolding ci_prefix_iff by blast
  from h(2) have "length h = length kw" using map_eq_imp_length_eq by blast
  with h(1) have "drop (length kw) s = r" by simp
  with s(3) obtain ws rest where "r = ws @ nl # rest" "list_all isspace ws"
    unfolding line_break_iff by blast
  with s(1) h have "txt = pre @ h @ ws @ nl # rest \<and> map lower h = map lower kw \<and>
      list_all isspace ws" by simp
  then show "\<exists>pre h ws rest. txt = pre @ h @ ws @ nl # rest \<and> map lower h = map lower kw \<and>
        list_all isspace ws" by blast
next
  assume "\<exists>pre h ws rest. txt = pre @ h @ ws @ nl # rest \<and> map lower h = map lower kw \<and>
        list_all isspace ws"
  then obtain pre h ws rest where t: "txt = pre @ h @ ws @ nl # rest"
     "map lower h = map lower kw" "list_all isspace ws" by blast
  from t(2) have l: "length h = length kw" using map_eq_imp_length_eq by blast
  let ?s = "h @ ws @ nl # rest"
  from t(2) have "ci_prefix kw ?s" unfolding ci_prefix_iff by blast
  moreover from l have "drop (length kw) ?s = ws @ nl # rest" by simp
  then have "line_break_body (drop (length kw) ?s) \<noteq> None"
    using t(3) line_break_body_run by simp
  ultimately have "txt = pre @ ?s \<and> ci_prefix kw ?s \<and>
      line_break_body (drop (length kw) ?s) \<noteq> None" using t(1) by simp
  then show "heading_body kw txt \<noteq> None" unfolding heading_body_iff by blast
qed

lemma label_recognised:
  assumes "x \<in> set section_table"
  shows "(dict_get (identify_sections txt) (snd (snd x)) \<noteq> None) =
         (\<exists>pre h ws rest. txt = pre @ h @ ws @ nl # rest \<and> map lower h = map lower (fst x) \<and>
            list_all isspace ws)"
proof -
  obtain kw stop label where k: "x = (kw, stop, label)" by (cases x)
  with assms have "(kw, stop, label) \<in> set section_table" by simp
  then have "dict_get (identify_sections txt) label = section_capture kw stop txt"
    by (rule section_lookup)
  then have "dict_get (identify_sections txt) label \<noteq> None \<longleftrightarrow> heading_body kw txt \<noteq> None"
    by (simp add: section_capture_def)
  with k show ?thesis by (simp only: heading_recognised fst_conv snd_conv)
qed

text \<open>
  C9 (amended). A heading keyword is recognised only when it is immediately followed by
  optional whitespace and a newline: for each of the nine keywords \<open>_identify_sections\<close>
  returns the label exactly when the text has a place where the keyword stands, in any
  mixture of upper and lower case, followed by whitespace characters and then a
  newline. For every page text that consists of \<open>CONCLUSIONS\<close>, a newline and a body,
  \<open>_identify_sections\<close> returns the label \<open>Conclusions\<close>, and the heading line itself
  never yields the label \<open>Conclusion\<close>: that label is returned exactly when the body
  alone yields it, and then with the same text.
\<close>

theorem conclusions_heading:
  "list_all
     (\<lambda>(kw, stop, label).
        (dict_get (identify_sections txt) label \<noteq> None) =
        (\<exists>pre h ws rest. txt = pre @ h @ ws @ nl # rest \<and> map lower h = map lower kw \<and>
           list_all isspace ws))
     section_table \<and>
   dict_get (identify_sections (''CONCLUSIONS'' @ nl # body)) ''Conclusions'' \<noteq> None \<and>
   dict_get (identify_sections (''CONCLUSIONS'' @ nl # body)) ''Conclusion'' =
     dict_get (identify_sections body) ''Conclusion''"
proof -
  have g: "list_all
     (\<lambda>(kw, stop, label).
        (dict_get (identify_sections txt) label \<noteq> None) =
        (\<exists>pre h ws rest. txt = pre @ h @ ws @ nl # rest \<and> map lower h = map lower kw \<and>
           list_all isspace ws))
     section_table"
  proof (rule iffD2 [OF list_all_iff], rule ballI)
    fix x :: "string \<times> (string \<Rightarrow> bool) \<times> string"
    assume "x \<in> set section_table"
    from label_recognised [OF this, of "txt"] show "(case x of (kw, stop, label) \<Rightarrow>
        (dict_get (identify_sections txt) label \<noteq> None) =
        (\<exists>pre h ws rest. txt = pre @ h @ ws @ nl # rest \<and> map lower h = map lower kw \<and>
           list_all isspace ws))"
      by (simp only: split_beta)
  qed
  have a: "dict_get (identify_sections t) ''Conclusions'' =
           section_capture ''CONCLUSIONS'' at_boundary t" for t
    by (rule section_lookup) (simp add: section_table_def)
  have b: "dict_get (identify_sections t) ''Conclusion'' =
           section_capture ''CONCLUSION'' at_boundary t" for t
    by (rule section_lookup) (simp add: section_table_def)
  have "dict_get (identify_sections (''CONCLUSIONS'' @ nl # body)) ''Conclusions'' \<noteq> None \<and>
   dict_get (identify_sections (''CONCLUSIONS'' @ nl # body)) ''Conclusion'' =
     dict_get (identify_sections body) ''Conclusion''"
    unfolding a b section_capture_def heading_body_conclusion
    using heading_body_conclusions [of body]
    by (simp del: heading_body.simps)
  with g show ?thesis by blast
qed

theorem conclusions_heading_witness:
  "dict_get (identify_sections ''Conclusions \<newline>x'') ''Conclusions'' = Some ''x'' \<and>
   (\<exists>pre h ws rest. ''Conclusions \<newline>x'' = pre @ h @ ws @ nl # rest \<and>
      map lower h = map lower ''CONCLUSIONS'' \<and> list_all isspace ws) \<and>
   dict_get (identify_sections ''Conclusions \<newline>x'') ''Conclusion'' = None \<and>
   \<not> (\<exists>pre h ws rest. ''Conclusions \<newline>x'' = pre @ h @ ws @ nl # rest \<and>
      map lower h = map lower ''CONCLUSION'' \<and> list_all isspace ws) \<and>
   dict_get (identify_sections ''CONCLUSIONS\<newline>x'') ''Conclusions'' \<noteq> None \<and>
   dict_get (identify_sections ''CONCLUSIONS\<newline>x'') ''Conclusion'' =
     dict_get (identify_sections ''x'') ''Conclusion''"
proof -
  have e: "dict_get (identify_sections ''Conclusions \<newline>x'') ''Conclusions'' = Some ''x''"
          "dict_get (identify_sections ''Conclusions \<newline>x'') ''Conclusion'' = None"
    by (simp_all add: eval_simps)
  from conclusions_heading [of "''Conclusions \<newline>x''" "''x''"] e show ?thesis
    by (simp add: section_table_def nl_def)
qed

section \<open>The aggregator\<close>

subsection \<open>Dictionaries\<close>

lemma dict_get_dict_set:
  "dict_get (dict_set d k v) k' = (if k' = k then Some v else dict_get d k')"
  by (simp add: dict_get_def map_of_dict_set)

lemma dict_keys_Nil [simp]: "dict_keys [] = []"
  by (simp add: dict_keys_def)

lemma dict_keys_Cons [simp]: "dict_keys ((k, v) # d) = k # dict_keys d"
  by (simp add: dict_keys_def)

lemma dict_keys_dict_set:
  "dict_keys (dict_set d k v) = (if k \<in> set (dict_keys d) then dict_keys d else dict_keys d @ [k])"
proof (induction d)
  case Nil
  show ?case by simp
next
  case (Cons a d)
  obtain k' v' where a: "a = (k', v')" by (cases a)
  from Cons show ?case by (simp add: a)
qed

lemma dict_get_None: "dict_get d k = None \<longleftrightarrow> k \<notin> set (dict_keys d)"
  by (simp add: dict_get_def dict_keys_def map_of_eq_None_iff)

subsection \<open>The merge of the sections\<close>

lemma merge_step_keys:
  "dict_keys (merge_step d (t, c)) =
     (if t \<in> set (dict_keys d) then dict_keys d else dict_keys d @ [t])"
  by (cases "dict_get d t")
     (auto simp: merge_step_def dict_get_dict_set dict_keys_dict_set dict_get_None)

lemma merge_step_get:
  "dict_get (merge_step d (t, c)) k =
     (if k = t then Some ((case dict_get d t of None \<Rightarrow> [] | Some old \<Rightarrow> old) @ c)
      else dict_get d k)"
  by (cases "dict_get d t") (auto simp: merge_step_def dict_get_dict_set)

text \<open>The \<open>KeyError\<close> branch of \<open>merge_step\<close> is never taken.\<close>

lemma merge_step_no_key_error:
  "dict_get (if dict_get d t = None then dict_set d t [] else d) t \<noteq> None"
  by (simp add: dict_get_dict_set)

lemma merge_sections_keys_prefix: "\<exists>zs. dict_keys (merge_sections d s) = dict_keys d @ zs"
proof (induction s arbitrary: d)
  case Nil
  show ?case by (simp add: merge_sections_def)
next
  case (Cons a s)
  obtain t c where a: "a = (t, c)" by (cases a)
  from Cons [of "merge_step d (t, c)"] show ?case
    by (auto simp: merge_sections_def a merge_step_keys)
qed

lemma merge_sections_keys_set:
  "set (dict_keys (merge_sections d s)) = set (dict_keys d) \<union> set (dict_keys s)"
proof (induction s arbitrary: d)
  case Nil
  show ?case by (simp add: merge_sections_def)
next
  case (Cons a s)
  obtain t c where a: "a = (t, c)" by (cases a)
  have "set (dict_keys (merge_sections (merge_step d (t, c)) s)) =
        set (dict_keys (merge_step d (t, c))) \<union> set (dict_keys s)"
    by (rule Cons)
  moreover have "merge_sections d (a # s) = merge_sections (merge_step d (t, c)) s"
    by (simp add: merge_sections_def a)
  ultimately show ?case
    by (auto simp: a merge_step_keys)
qed

lemma merge_sections_get:
  "distinct (dict_keys s) \<Longrightarrow>
   dict_get (merge_sections d s) k =
     (case dict_get s k of
        None \<Rightarrow> dict_get d k
      | Some c \<Rightarrow> Some ((case dict_get d k of None \<Rightarrow> [] | Some old \<Rightarrow> old) @ c))"
proof (induction s arbitrary: d)
  case Nil
  show ?case by (simp add: merge_sections_def dict_get_def)
next
  case (Cons a s)
  obtain t c where a: "a = (t, c)" by (cases a)
  from Cons.prems have d: "distinct (dict_keys s)" and t: "t \<notin> set (dict_keys s)"
    by (simp_all add: a)
  have step: "merge_sections d (a # s) = merge_sections (merge_step d (t, c)) s"
    by (simp add: merge_sections_def a)
  have head: "dict_get (a # s) k = (if k = t then Some c else dict_get s k)"
    by (simp add: dict_get_def a)
  from t have none: "dict_get s t = None" by (simp add: dict_get_None)
  show ?case
    unfolding step head Cons.IH [OF d] merge_step_get
    using none by (auto split: option.splits)
qed

subsection \<open>The merge over the pages\<close>

lemma merge_pages_Nil [simp]: "merge_pages d [] = d"
  by (simp add: merge_pages_def)

lemma merge_pages_Cons [simp]:
  "merge_pages d (t # ts) = merge_pages (merge_sections d (identify_sections t)) ts"
  by (simp add: merge_pages_def)

lemma merge_pages_append: "merge_pages d (xs @ ys) = merge_pages (merge_pages d xs) ys"
  by (simp add: merge_pages_def)

lemma merge_pages_keys_prefix: "\<exists>zs. dict_keys (merge_pages d ts) = dict_keys d @ zs"
proof (induction ts arbitrary: d)
  case Nil
  show ?case by simp
next
  case (Cons t ts)
  from Cons [of "merge_sections d (identify_sections t)"]
    merge_sections_keys_prefix [of d "identify_sections t"]
  show ?case by auto
qed

lemma merge_pages_keys_set:
  "set (dict_keys (merge_pages d ts)) =
     set (dict_keys d) \<union> (\<Union>t\<in>set ts. set (dict_keys (identify_sections t)))"
  by (induction ts arbitrary: d) (auto simp: merge_sections_keys_set)

lemma merge_pages_get_absent:
  "\<forall>t\<in>set ts. dict_get (identify_sections t) k = None \<Longrightarrow>
   dict_get (merge_pages d ts) k = dict_get d k"
  by (induction ts arbitrary: d) (simp_all add: merge_sections_get identify_sections_distinct)

subsection \<open>The loop over the pages\<close>

lemma extract_tables_text [simp]:
  "full_text (extract_tables n tb acc) = full_text acc"
  "structured_sections (extract_tables n tb acc) = structured_sections acc"
  by (induction tb arbitrary: acc) (simp_all split: sum.splits)

lemma page_loop_sections:
  "page_loop n ps acc = Inr acc' \<Longrightarrow> map get_text ps = map Inr ts \<Longrightarrow>
   structured_sections acc' = merge_pages (structured_sections acc) ts"
proof (induction ps arbitrary: n acc ts)
  case Nil
  then show ?case by simp
next
  case (Cons p ps)
  from Cons.prems(2) obtain t ts' where ts: "ts = t # ts'" and t: "get_text p = Inr t"
    and rest: "map get_text ps = map Inr ts'"
    by (cases ts) auto
  from Cons.prems(1) t obtain tbls where tb: "find_tables p = Inr tbls"
    by (cases "find_tables p") (simp_all add: Let_def)
  from Cons.prems(1) t tb
  have "page_loop (n + 1) ps
          (extract_tables n tbls
             (acc\<lparr>full_text := full_text acc @ page_marker (n + 1) @ t,
                  structured_sections :=
                    merge_sections (structured_sections acc) (identify_sections t)\<rparr>)) = Inr acc'"
    by (simp add: Let_def)
  from Cons.IH [OF this rest] show ?case by (simp add: ts)
qed

lemma extract_sections:
  assumes "fst (extract_pdf_content e path st) = Inr c"
    and "fitz_open e path = Inr doc"
    and "map get_text (pages doc) = map Inr ts"
  shows "structured_content c = merge_pages [] ts"
proof -
  let ?acc0 = "\<lparr>full_text = [], structured_sections = [], tables_found = [], warnings = logged st\<rparr>"
  from assms(1,2) obtain acc where loop: "page_loop 0 (pages doc) ?acc0 = Inr acc"
    and c: "structured_content c = structured_sections acc"
    by (cases "page_loop 0 (pages doc) ?acc0")
       (auto simp: extract_pdf_content_def Let_def split: prod.splits)
  from page_loop_sections [OF loop assms(3)] c show ?thesis by simp
qed

subsection \<open>The claims on the merged sections\<close>

text \<open>
  C3. In the document built from the pages with texts \<open>ts\<close>, when label \<open>A\<close> is matched on
  page \<open>i\<close> and label \<open>B\<close> is matched first on a later page \<open>j\<close>, then \<open>A\<close> stands before \<open>B\<close>
  in the keys of the sections mapping.
\<close>

theorem first_encounter_order:
  assumes "fst (extract_pdf_content e path st) = Inr c"
    and "fitz_open e path = Inr doc"
    and "map get_text (pages doc) = map Inr ts"
    and "i < j" and "j < length ts"
    and "A \<in> set (dict_keys (identify_sections (ts ! i)))"
    and "B \<in> set (dict_keys (identify_sections (ts ! j)))"
    and "\<forall>k<j. B \<notin> set (dict_keys (identify_sections (ts ! k)))"
  shows "\<exists>xs ys zs. dict_keys (structured_content c) = xs @ A # ys @ B # zs"
proof -
  let ?d = "merge_pages [] (take j ts)"
  have c: "structured_content c = merge_pages ?d (drop j ts)"
    using extract_sections [OF assms(1-3)] merge_pages_append [of "[]" "take j ts" "drop j ts"]
    by simp
  have "ts ! i \<in> set (take j ts)"
    using assms(4,5) by (auto simp: in_set_conv_nth intro!: exI [of _ i])
  with assms(6) have A: "A \<in> set (dict_keys ?d)" by (auto simp: merge_pages_keys_set)
  have "B \<notin> set (dict_keys (identify_sections t))" if "t \<in> set (take j ts)" for t
  proof -
    from that obtain k where "k < length (take j ts)" "take j ts ! k = t"
      by (auto simp: in_set_conv_nth)
    then have "k < j" "ts ! k = t" by simp_all
    with assms(8) show ?thesis by blast
  qed
  then have B: "B \<notin> set (dict_keys ?d)" by (simp add: merge_pages_keys_set)
  have "ts ! j \<in> set (drop j ts)"
    using assms(5) by (metis Cons_nth_drop_Suc list.set_intros(1))
  with assms(7) have "B \<in> set (dict_keys (merge_pages ?d (drop j ts)))"
    by (auto simp: merge_pages_keys_set)
  moreover obtain zs where zs: "dict_keys (merge_pages ?d (drop j ts)) = dict_keys ?d @ zs"
    using merge_pages_keys_prefix by blast
  ultimately have "B \<in> set zs" using B by simp
  then obtain z1 z2 where z: "zs = z1 @ B # z2" by (auto dest: split_list)
  from A obtain xs ys where x: "dict_keys ?d = xs @ A # ys" by (auto dest: split_list)
  have "dict_keys (structured_content c) = xs @ A # (ys @ z1) @ B # z2"
    by (simp add: c zs z x)
  then show ?thesis by blast
qed

text \<open>
  C5 (amended). When the pages are \<open>pre\<close>, then two consecutive pages \<open>p\<close> and \<open>q\<close> on which
  the label is matched with the trimmed captures \<open>a\<close> and \<open>b\<close>, then \<open>post\<close>, and the label
  is matched on no page of \<open>pre\<close> and \<open>post\<close>, the merged text of the label is \<open>a\<close>
  followed by \<open>b\<close> with nothing between them.
\<close>

theorem two_page_merge:
  assumes "fst (extract_pdf_content e path st) = Inr c"
    and "fitz_open e path = Inr doc"
    and "map get_text (pages doc) = map Inr (pre @ p # q # post)"
    and "dict_get (identify_sections p) label = Some a"
    and "dict_get (identify_sections q) label = Some b"
    and "\<forall>t\<in>set pre \<union> set post. dict_get (identify_sections t) label = None"
  shows "dict_get (structured_content c) label = Some (a @ b)"
proof -
  let ?d = "merge_pages [] pre"
  have c: "structured_content c = merge_pages (merge_pages ?d [p, q]) post"
    using extract_sections [OF assms(1-3)] merge_pages_append [of "[]" pre "p # q # post"]
      merge_pages_append [of ?d "[p, q]" post]
    by simp
  have "dict_get ?d label = None"
    using assms(6) merge_pages_get_absent [of pre label "[]"] by (simp add: dict_get_def)
  then have "dict_get (merge_pages ?d [p, q]) label = Some (a @ b)"
    using assms(4,5) by (simp add: merge_sections_get identify_sections_distinct)
  then show ?thesis
    using assms(6) merge_pages_get_absent [of post label "merge_pages ?d [p, q]"]
    by (simp add: c)
qed

lemma str_nat_digit: "n < 10 \<Longrightarrow> str_nat n = [''0123456789'' ! n]"
  by simp

declare str_nat.simps [simp del]

lemmas run_simps =
  extract_pdf_content_def text_pdf_def text_page_def init_state_def Let_def
  merge_sections_def merge_step_def dict_get_dict_set

theorem first_encounter_order_witness:
  "fst (extract_pdf_content (text_pdf [''ABSTRACT\<newline>a'', ''RESULTS\<newline>r'']) ''a.pdf'' init_state) =
     Inr (projr (fst (extract_pdf_content (text_pdf [''ABSTRACT\<newline>a'', ''RESULTS\<newline>r''])
       ''a.pdf'' init_state))) \<and>
   ''Abstract'' \<in> set (dict_keys (identify_sections ''ABSTRACT\<newline>a'')) \<and>
   ''Results'' \<in> set (dict_keys (identify_sections ''RESULTS\<newline>r'')) \<and>
   ''Results'' \<notin> set (dict_keys (identify_sections ''ABSTRACT\<newline>a'')) \<and>
   dict_keys (structured_content
     (projr (fst (extract_pdf_content (text_pdf [''ABSTRACT\<newline>a'', ''RESULTS\<newline>r''])
       ''a.pdf'' init_state)))) = [''Abstract'', ''Results'']"
  using first_encounter_order
    [of "text_pdf [''ABSTRACT\<newline>a'', ''RESULTS\<newline>r'']" "''a.pdf''" init_state
        "projr (fst (extract_pdf_content (text_pdf [''ABSTRACT\<newline>a'', ''RESULTS\<newline>r''])
           ''a.pdf'' init_state))"
        "\<lparr>pages = map text_page [''ABSTRACT\<newline>a'', ''RESULTS\<newline>r''], doc_metadata = []\<rparr>"
        "[''ABSTRACT\<newline>a'', ''RESULTS\<newline>r'']" 0 1 "''Abstract''" "''Results''"]
  by (simp add: run_simps eval_simps)

text \<open>
  C5 (as stated). On three pages that all match \<open>Abstract\<close> with the capture \<open>x\<close>, the label
  is matched on two consecutive pages, and the merged text is \<open>xxx\<close>, not the
  concatenation \<open>xx\<close> of the captures of two pages.
\<close>

theorem three_page_merge:
  "dict_get (identify_sections ''ABSTRACT\<newline>x'') ''Abstract'' = Some ''x'' \<and>
   fst (extract_pdf_content (text_pdf [''ABSTRACT\<newline>x'', ''ABSTRACT\<newline>x'', ''ABSTRACT\<newline>x''])
     ''a.pdf'' init_state) =
     Inr (projr (fst (extract_pdf_content
       (text_pdf [''ABSTRACT\<newline>x'', ''ABSTRACT\<newline>x'', ''ABSTRACT\<newline>x'']) ''a.pdf'' init_state))) \<and>
   dict_get (structured_content (projr (fst (extract_pdf_content
       (text_pdf [''ABSTRACT\<newline>x'', ''ABSTRACT\<newline>x'', ''ABSTRACT\<newline>x'']) ''a.pdf'' init_state))))
     ''Abstract'' = Some ''xxx''"
  by (simp add: run_simps eval_simps)

theorem two_page_merge_witness:
  "fst (extract_pdf_content (text_pdf [''Title'', ''ABSTRACT\<newline>We '', ''ABSTRACT\<newline>study'', ''end''])
     ''a.pdf'' init_state) =
     Inr (projr (fst (extract_pdf_content
       (text_pdf [''Title'', ''ABSTRACT\<newline>We '', ''ABSTRACT\<newline>study'', ''end'']) ''a.pdf'' init_state))) \<and>
   dict_get (identify_sections ''ABSTRACT\<newline>We '') ''Abstract'' = Some ''We'' \<and>
   dict_get (identify_sections ''ABSTRACT\<newline>study'') ''Abstract'' = Some ''study'' \<and>
   dict_get (identify_sections ''Title'') ''Abstract'' = None \<and>
   dict_get (identify_sections ''end'') ''Abstract'' = None \<and>
   dict_get (structured_content (projr (fst (extract_pdf_content
       (text_pdf [''Title'', ''ABSTRACT\<newline>We '', ''ABSTRACT\<newline>study'', ''end'']) ''a.pdf'' init_state))))
     ''Abstract'' = Some ''Westudy''"
  using two_page_merge
    [of "text_pdf [''Title'', ''ABSTRACT\<newline>We '', ''ABSTRACT\<newline>study'', ''end'']" "''a.pdf''" init_state
        "projr (fst (extract_pdf_content
           (text_pdf [''Title'', ''ABSTRACT\<newline>We '', ''ABSTRACT\<newline>study'', ''end'']) ''a.pdf'' init_state))"
        "\<lparr>pages = map text_page [''Title'', ''ABSTRACT\<newline>We '', ''ABSTRACT\<newline>study'', ''end''],
          doc_metadata = []\<rparr>"
        "[''Title'']" "''ABSTRACT\<newline>We ''" "''ABSTRACT\<newline>study''" "[''end'']" "''Abstract''"
        "''We''" "''study''"]
  by (simp add: run_simps eval_simps)

section \<open>The reference splitter\<close>

lemma extract_references_body:
  "extract_references txt =
     (case heading_body ''REFERENCES'' txt of
        None \<Rightarrow> []
      | Some b \<Rightarrow>
          map strip (filter (\<lambda>ref. 20 < length (strip ref)) (re_split no_flags ref_separator b)))"
proof -
  have s: "map_option (\<lambda>(pre, rest, g). g) (search re_flags ref_pattern txt) =
           map_option (\<lambda>b. Some (capture_until at_end b)) (heading_body ''REFERENCES'' txt)"
    unfolding ref_pattern_def
    by (rule heading_search) (simp_all add: at_end_def)
  show ?thesis
  proof (cases "search re_flags ref_pattern txt")
    case None
    with s show ?thesis by (simp add: extract_references_def)
  next
    case (Some x)
    with s show ?thesis
      by (cases x; cases "heading_body ''REFERENCES'' txt")
         (auto simp: extract_references_def group_text_def capture_until_at_end)
  qed
qed

subsection \<open>Trimming\<close>

lemma dropWhile_id: "xs = [] \<or> \<not> p (hd xs) \<Longrightarrow> dropWhile p xs = xs"
  by (cases xs) auto

lemma last_dropWhile: "dropWhile p xs \<noteq> [] \<Longrightarrow> last (dropWhile p xs) = last xs"
  by (induction xs) (auto split: if_splits)

lemma strip_strip: "strip (strip s) = strip s"
proof -
  let ?u = "dropWhile isspace s"
  let ?w = "dropWhile isspace (rev ?u)"
  have "dropWhile isspace (rev ?w) = rev ?w"
  proof (cases "?w = []")
    case True
    show ?thesis unfolding True by simp
  next
    case False
    have u: "?u \<noteq> []"
    proof
      assume e: "?u = []"
      have "?w = []" unfolding e by simp
      with False show False ..
    qed
    have "hd (rev ?w) = last ?w" using False by (simp add: hd_rev)
    also have "\<dots> = last (rev ?u)" using False by (rule last_dropWhile)
    also have "\<dots> = hd ?u" using u by (simp add: last_rev)
    finally have "\<not> isspace (hd (rev ?w))" using u by (simp add: hd_dropWhile)
    then show ?thesis by (intro dropWhile_id) simp
  qed
  then show ?thesis by (simp add: strip_def)
qed

lemma strip_leading: "list_all isspace ws \<Longrightarrow> strip (ws @ s) = strip s"
  by (induction ws) (simp_all add: strip_def)

subsection \<open>The separator\<close>

lemma repeat_exact:
  "repeat_match p True n (Some n) s k =
     (if n \<le> length s \<and> list_all p (take n s) then k (drop n s) else None)"
proof (induction s arbitrary: n)
  case Nil
  show ?case by simp
next
  case (Cons c cs)
  show ?case
  proof (cases n)
    case 0
    then show ?thesis by simp
  next
    case (Suc m)
    with Cons [of m] show ?thesis by (simp split: option.splits)
  qed
qed

lemma literal_plain: "literal_ok no_flags a c \<longleftrightarrow> c = a"
  by (simp add: literal_ok_def no_flags_def)

lemma atom_literal_last:
  "rmatch no_flags (Atom (Literal a)) s g (\<lambda>s' g'. Some (s', g')) =
     (case s of [] \<Rightarrow> None | c # cs \<Rightarrow> if c = a then Some (cs, g) else None)"
  by (cases s) (simp_all add: literal_plain)

lemma digits_then_match:
  assumes "\<not> isdecimal b"
  shows "rmatch no_flags (Seq (Repeat (Category Digit) 1 None True) (Atom (Literal b))) t g
           (\<lambda>s' g'. Some (s', g')) = None
         \<longleftrightarrow> \<not> digits_then b t"
proof -
  let ?n = "length (takeWhile isdecimal t)"
  let ?k = "\<lambda>s'. case s' of [] \<Rightarrow> None | c' # cs' \<Rightarrow> if c' = b then Some (cs', g) else None"
  have cat: "atom_ok no_flags (Category Digit) = isdecimal" by (rule ext) simp
  have k: "?k (drop j t) = None \<longleftrightarrow> \<not> (j < length t \<and> t ! j = b)" for j
    by (auto simp: drop_eq_Cons_iff split: list.splits)
  have digit: "t ! j \<noteq> b" if "j < ?n" for j
  proof -
    from that have "takeWhile isdecimal t ! j \<in> set (takeWhile isdecimal t)" by simp
    then have "isdecimal (takeWhile isdecimal t ! j)" by (rule set_takeWhileD [THEN conjunct2])
    with that show ?thesis using assms by (auto simp: takeWhile_nth)
  qed
  have "rmatch no_flags (Seq (Repeat (Category Digit) 1 None True) (Atom (Literal b))) t g
          (\<lambda>s' g'. Some (s', g')) = repeat_match isdecimal True 1 None t ?k"
    unfolding rmatch.simps(4) rmatch.simps(2) atom_literal_last cat ..
  also have "\<dots> = None \<longleftrightarrow> \<not> (\<exists>j\<in>{1 .. ?n}. ?k (drop j t) \<noteq> None)"
    by (simp add: repeat_match_candidates first_some_None set_candidates del: not_None_eq)
  also have "\<dots> \<longleftrightarrow> \<not> (\<exists>j\<in>{1 .. ?n}. j < length t \<and> t ! j = b)"
    by (simp only: k not_not)
  also have "\<dots> \<longleftrightarrow> \<not> (1 \<le> ?n \<and> ?n < length t \<and> t ! ?n = b)"
    using digit by (metis atLeastAtMost_iff le_neq_implies_less order_refl)
  also have "\<dots> \<longleftrightarrow> \<not> digits_then b t"
    by (auto simp: digits_then_def dropWhile_eq_drop drop_eq_Cons_iff Suc_le_eq
          split: list.splits)
  finally show ?thesis .
qed

lemma repeat_greedy_None:
  "repeat_match p True mn None t k = None \<longleftrightarrow>
     \<not> (\<exists>j\<in>{mn .. length (takeWhile p t)}. k (drop j t) \<noteq> None)"
  by (simp add: repeat_match_candidates first_some_None set_candidates del: not_None_eq)

lemma class_word_space_comma:
  "atom_ok no_flags (In [Cat Word, Cat Space, Ch CHR '','']) = word_space_comma"
  by (rule ext) (auto simp: word_space_comma_def literal_ok_def no_flags_def)

lemma year_cont_None: "year_cont g s = None \<longleftrightarrow> \<not> year_close s"
proof (cases "drop 4 s")
  case Nil
  then show ?thesis unfolding year_cont_def repeat_exact year_close_def by simp
next
  case (Cons a l)
  then have "drop 4 s \<noteq> []" by simp
  then have "4 < length s" by simp
  with Cons show ?thesis unfolding year_cont_def repeat_exact year_close_def by simp
qed

lemma author_year_unfold:
  "rmatch no_flags
     (Seq (Repeat (In [Cat Word, Cat Space, Ch CHR '','']) 1 None True)
        (Seq (Repeat (Category Digit) 4 (Some 4) True) (Atom (Literal CHR '']''))))
     t g (\<lambda>s' g'. Some (s', g')) =
   repeat_match word_space_comma True 1 None t (year_cont g)"
proof -
  have cat: "atom_ok no_flags (Category Digit) = isdecimal" by (rule ext) simp
  have "year_cont g = (\<lambda>s. repeat_match isdecimal True 4 (Some 4) s
       (\<lambda>s'. case s' of [] \<Rightarrow> None | c # cs \<Rightarrow> if c = CHR '']'' then Some (cs, g) else None))"
    by (rule ext) (simp only: year_cont_def)
  then show ?thesis
    unfolding rmatch.simps(4) rmatch.simps(2) atom_literal_last cat class_word_space_comma
    by (simp only:)
qed

lemma author_year_match:
  "rmatch no_flags
     (Seq (Repeat (In [Cat Word, Cat Space, Ch CHR '','']) 1 None True)
        (Seq (Repeat (Category Digit) 4 (Some 4) True) (Atom (Literal CHR '']''))))
     t g (\<lambda>s' g'. Some (s', g')) = None
   \<longleftrightarrow> \<not> list_ex (\<lambda>j. list_all word_space_comma (take j t) \<and> year_close (drop j t))
            [1 ..< Suc (length t)]"
proof -
  let ?n = "length (takeWhile word_space_comma t)"
  have run: "(1 \<le> j \<and> j \<le> ?n) \<longleftrightarrow>
             (1 \<le> j \<and> j \<le> length t \<and> list_all word_space_comma (take j t))" for j
  proof (cases "j \<le> length t")
    case True
    then show ?thesis using list_all_take_takeWhile [of j t word_space_comma] by simp
  next
    case False
    moreover have "?n \<le> length t" by (rule length_takeWhile_le)
    ultimately show ?thesis by simp
  qed
  have "repeat_match word_space_comma True 1 None t (year_cont g) = None \<longleftrightarrow>
        \<not> (\<exists>j\<in>{1 .. ?n}. year_cont g (drop j t) \<noteq> None)"
    by (rule repeat_greedy_None [of word_space_comma 1 t "year_cont g"])
  also have "\<dots> \<longleftrightarrow> \<not> (\<exists>j\<in>{1 .. ?n}. year_close (drop j t))"
    by (simp only: year_cont_None not_not)
  also have "\<dots> \<longleftrightarrow> \<not> (\<exists>j. (1 \<le> j \<and> j \<le> ?n) \<and> year_close (drop j t))"
    by auto
  also have "\<dots> \<longleftrightarrow> \<not> (\<exists>j. (1 \<le> j \<and> j \<le> length t \<and> list_all word_space_comma (take j t)) \<and>
                         year_close (drop j t))"
    by (simp only: run)
  also have "\<dots> \<longleftrightarrow> \<not> list_ex (\<lambda>j. list_all word_space_comma (take j t) \<and> year_close (drop j t))
                         [1 ..< Suc (length t)]"
    by (auto simp: list_ex_iff)
  finally show ?thesis unfolding author_year_unfold .
qed

lemma bracket_first:
  "rmatch no_flags (Seq (Atom (Literal CHR ''['')) r) t g k =
     (case t of [] \<Rightarrow> None | c # u \<Rightarrow> if c = CHR ''['' then rmatch no_flags r u g k else None)"
  by (cases t) (simp_all add: literal_plain)

lemma branch_none:
  "rmatch fl (Branch r1 r2) s g k = None \<longleftrightarrow>
     rmatch fl r1 s g k = None \<and> rmatch fl r2 s g k = None"
  by (simp split: option.splits)

lemma separator_ahead:
  "rmatch no_flags entry_ahead t g (\<lambda>s' g'. Some (s', g')) = None \<longleftrightarrow> \<not> entry_marker t"
proof -
  have nd: "\<not> isdecimal CHR '']''" "\<not> isdecimal CHR ''.''"
    by (simp_all add: isdecimal_def)
  have a1: "rmatch no_flags
              (Seq (Atom (Literal CHR ''[''))
                 (Seq (Repeat (Category Digit) 1 None True) (Atom (Literal CHR '']''))))
              t g (\<lambda>s' g'. Some (s', g')) = None \<longleftrightarrow>
            \<not> (case t of [] \<Rightarrow> False | c # u \<Rightarrow> c = CHR ''['' \<and> digits_then CHR '']'' u)"
  proof (cases t)
    case Nil
    show ?thesis unfolding bracket_first Nil by simp
  next
    case (Cons c u)
    show ?thesis
      unfolding bracket_first Cons
      using digits_then_match [OF nd(1), of u g]
      by (cases "c = CHR ''[''") (simp_all del: rmatch.simps)
  qed
  have a2: "rmatch no_flags
              (Seq (Repeat (Category Digit) 1 None True) (Atom (Literal CHR ''.'')))
              t g (\<lambda>s' g'. Some (s', g')) = None \<longleftrightarrow> \<not> digits_then CHR ''.'' t"
    by (rule digits_then_match [OF nd(2)])
  have a3: "rmatch no_flags
              (Seq (Atom (Literal CHR ''[''))
                 (Seq (Repeat (In [Cat Word, Cat Space, Ch CHR '','']) 1 None True)
                    (Seq (Repeat (Category Digit) 4 (Some 4) True)
                       (Atom (Literal CHR '']'')))))
              t g (\<lambda>s' g'. Some (s', g')) = None \<longleftrightarrow>
            \<not> (case t of [] \<Rightarrow> False
               | c # u \<Rightarrow> c = CHR ''['' \<and>
                   list_ex (\<lambda>j. list_all word_space_comma (take j u) \<and> year_close (drop j u))
                     [1 ..< Suc (length u)])"
  proof (cases t)
    case Nil
    show ?thesis unfolding bracket_first Nil by simp
  next
    case (Cons c u)
    show ?thesis
      unfolding bracket_first Cons
      using author_year_match [of u g]
      by (cases "c = CHR ''[''") (simp_all del: rmatch.simps)
  qed
  show ?thesis
    unfolding entry_ahead_def branch_none a1 a2 a3 entry_marker_def by blast
qed

lemma separator_search: "search no_flags ref_separator s = None \<longleftrightarrow> \<not> has_boundary s"
proof (induction s)
  case Nil
  show ?case by (simp add: match_at_def ref_separator_def)
next
  case (Cons c t)
  have "match_at no_flags ref_separator (c # t) =
          (if c = nl
           then (case rmatch no_flags entry_ahead t None (\<lambda>s' g'. Some (s', g')) of
                   None \<Rightarrow> None
                 | Some (_, g') \<Rightarrow> Some (t, g'))
           else None)"
    by (simp add: match_at_def ref_separator_def literal_plain del: rmatch.simps(5))
  then have "match_at no_flags ref_separator (c # t) = None \<longleftrightarrow> \<not> (c = nl \<and> entry_marker t)"
    using separator_ahead [of t None] by (auto split: option.splits)
  with Cons show ?case by (auto split: option.splits)
qed

lemma re_split_single:
  assumes "\<not> has_boundary s"
  shows "re_split no_flags ref_separator s = [s]"
proof -
  from assms have "search no_flags ref_separator s = None" by (simp add: separator_search)
  then show ?thesis by (subst re_split.simps) simp
qed

lemma has_boundary_suffix: "\<not> has_boundary (ws @ s) \<Longrightarrow> \<not> has_boundary s"
  by (induction ws) (auto split: if_splits)

lemma line_break_body_shape:
  "line_break_body r = Some b \<Longrightarrow> \<exists>ws. r = ws @ b \<and> list_all isspace ws"
proof (induction r arbitrary: b)
  case Nil
  then show ?case by simp
next
  case (Cons c cs)
  show ?case
  proof (cases "line_break_body cs")
    case None
    with Cons.prems have "c # cs = [c] @ b \<and> list_all isspace [c]"
      by (auto split: if_splits)
    then show ?thesis by blast
  next
    case (Some b')
    with Cons.prems have c: "isspace c" and b: "b' = b" by (auto split: if_splits)
    from Cons.IH [OF Some] obtain ws where "cs = ws @ b'" "list_all isspace ws" by blast
    with c b have "c # cs = (c # ws) @ b \<and> list_all isspace (c # ws)" by simp
    then show ?thesis by blast
  qed
qed

lemma references_heading_first:
  "heading_body ''REFERENCES'' (''REFERENCES'' @ nl # block) =
     (case line_break_body block of Some b \<Rightarrow> Some b | None \<Rightarrow> Some block)"
proof (cases "line_break_body block")
  case None
  then show ?thesis by (simp add: lower_Char)
next
  case (Some b)
  then show ?thesis by (simp add: lower_Char)
qed

lemma single_fragment:
  assumes "\<not> has_boundary block"
  shows "extract_references (''REFERENCES'' @ nl # block) =
           (if 20 < length (strip block) then [strip block] else [])"
proof (cases "line_break_body block")
  case None
  then show ?thesis
    unfolding extract_references_body references_heading_first
    using assms by (simp add: re_split_single)
next
  case (Some b)
  from line_break_body_shape [OF Some] obtain ws where ws: "block = ws @ b" "list_all isspace ws"
    by blast
  with assms have "\<not> has_boundary b" using has_boundary_suffix by blast
  moreover have "strip block = strip b" using ws by (simp add: strip_leading)
  ultimately show ?thesis
    unfolding extract_references_body references_heading_first
    using Some by (simp add: re_split_single)
qed

lemma separator_match:
  "match_at no_flags ref_separator (c # t) = None \<longleftrightarrow> \<not> (c = nl \<and> entry_marker t)"
  "match_at no_flags ref_separator (c # t) = Some (rest, g) \<Longrightarrow> rest = t"
proof -
  have m: "match_at no_flags ref_separator (c # t) =
          (if c = nl
           then (case rmatch no_flags entry_ahead t None (\<lambda>s' g'. Some (s', g')) of
                   None \<Rightarrow> None
                 | Some (_, g') \<Rightarrow> Some (t, g'))
           else None)"
    by (simp add: match_at_def ref_separator_def literal_plain del: rmatch.simps(5))
  then show "match_at no_flags ref_separator (c # t) = None \<longleftrightarrow> \<not> (c = nl \<and> entry_marker t)"
    using separator_ahead [of t None] by (auto split: option.splits)
  show "match_at no_flags ref_separator (c # t) = Some (rest, g) \<Longrightarrow> rest = t"
    unfolding m by (auto split: option.splits if_splits)
qed

lemma separator_split:
  "(search no_flags ref_separator s = None \<longrightarrow> fragments_from cur s = [cur @ s]) \<and>
   (\<forall>pre rest g. search no_flags ref_separator s = Some (pre, rest, g) \<longrightarrow>
      length rest < length s \<and> fragments_from cur s = (cur @ pre) # fragments_from [] rest)"
proof (induction s arbitrary: cur)
  case Nil
  show ?case by (simp add: match_at_def ref_separator_def)
next
  case (Cons c t)
  show ?case
  proof (cases "match_at no_flags ref_separator (c # t)")
    case None
    then have n: "\<not> (c = nl \<and> entry_marker t)" by (simp add: separator_match(1))
    then have f: "fragments_from cur (c # t) = fragments_from (cur @ [c]) t" by auto
    show ?thesis
    proof (cases "search no_flags ref_separator t")
      case n2: None
      with None Cons [of "cur @ [c]"] f show ?thesis by simp
    next
      case (Some x)
      obtain pre rest g where x: "x = (pre, rest, g)" by (cases x)
      with Some Cons [of "cur @ [c]"]
      have "length rest < length t"
           "fragments_from (cur @ [c]) t = (cur @ c # pre) # fragments_from [] rest"
        by simp_all
      with None Some x f show ?thesis by simp
    qed
  next
    case (Some y)
    obtain rest g where y: "y = (rest, g)" by (cases y)
    with Some have r: "rest = t" using separator_match(2) by blast
    from Some have "c = nl \<and> entry_marker t" using separator_match(1) [of c t] by auto
    then have "fragments_from cur (c # t) = cur # fragments_from [] t" by simp
    with Some y r show ?thesis by simp
  qed
qed

lemma re_split_fragments: "re_split no_flags ref_separator s = fragments_from [] s"
proof (induction s rule: length_induct)
  case (1 s)
  show ?case
  proof (cases "search no_flags ref_separator s")
    case None
    with separator_split [of s "[]"] have "fragments_from [] s = [s]" by simp
    with None show ?thesis by (subst re_split.simps) simp
  next
    case (Some x)
    obtain pre rest g where x: "x = (pre, rest, g)" by (cases x)
    with Some separator_split [of s "[]"]
    have l: "length rest < length s" and f: "fragments_from [] s = pre # fragments_from [] rest"
      by simp_all
    from 1 l have "re_split no_flags ref_separator rest = fragments_from [] rest" by blast
    with Some x l f show ?thesis by (subst re_split.simps) simp
  qed
qed

lemma fragments_single: "\<not> has_boundary s \<Longrightarrow> fragments_from cur s = [cur @ s]"
  by (induction s arbitrary: cur) (auto split: if_splits)

lemma extract_references_fragments:
  "extract_references txt =
     (case heading_body ''REFERENCES'' txt of
        None \<Rightarrow> []
      | Some b \<Rightarrow> map strip (filter (\<lambda>f. 20 < length (strip f)) (fragments b)))"
  by (simp add: extract_references_body re_split_fragments fragments_def split: option.splits)


lemma heading_single_fragment:
  assumes "heading_body ''REFERENCES'' txt = Some b" and "\<not> has_boundary b"
  shows "extract_references txt = (if 20 < length (strip b) then [strip b] else [])"
  using assms by (simp add: extract_references_fragments fragments_def fragments_single)

lemmas refs_simps =
  extract_references_fragments fragments_def lower_Char nl_def strip_def isspace_def
  isdecimal_def entry_marker_def digits_then_def

text \<open>
  C4. Every string that \<open>_extract_references\<close> returns has more than 20 characters
  after trimming. For every text the result is determined by the rule in words: without
  a \<open>REFERENCES\<close> heading (the keyword in any mixture of upper and lower case, then a run
  of whitespace with a newline) it is empty; otherwise the block after the first such
  heading is cut at every newline that is followed by a marker, and the pieces whose
  trimmed length exceeds 20 are returned trimmed, in their order. A block without a
  boundary (no newline followed by a marker) is a single fragment under the same rule:
  it is returned trimmed when its trimmed length exceeds 20, so 21 characters are kept
  and 20 are not, and the block \<open>See appendix.\<close> yields the empty sequence, also when the
  heading stands after a page marker as in the text that \<open>extract_pdf_content\<close> passes.
\<close>

theorem reference_fragments:
  "(\<forall>r\<in>set (extract_references txt). 20 < length (strip r)) \<and>
   extract_references txt =
     (case heading_body ''REFERENCES'' txt of
        None \<Rightarrow> []
      | Some b \<Rightarrow> map strip (filter (\<lambda>f. 20 < length (strip f)) (fragments b))) \<and>
   (\<not> has_boundary b \<longrightarrow> fragments b = [b]) \<and>
   (heading_body ''REFERENCES'' txt = Some b \<and> \<not> has_boundary b \<longrightarrow>
      extract_references txt = (if 20 < length (strip b) then [strip b] else [])) \<and>
   (\<not> has_boundary block \<longrightarrow>
      extract_references (''REFERENCES'' @ nl # block) =
        (if 20 < length (strip block) then [strip block] else [])) \<and>
   extract_references ''REFERENCES\<newline>See appendix.'' = [] \<and>
   extract_references ''REFERENCES\<newline>abcdefghijklmnopqrst  '' = [] \<and>
   extract_references ''REFERENCES\<newline>abcdefghijklmnopqrstu  '' = [''abcdefghijklmnopqrstu''] \<and>
   extract_references ''\<newline>--- Page 1 ---\<newline>Text\<newline>References\<newline>See appendix.'' = [] \<and>
   extract_references ''\<newline>--- Page 1 ---\<newline>Text\<newline>References \<newline>abcdefghijklmnopqrst  '' = [] \<and>
   extract_references ''\<newline>--- Page 1 ---\<newline>Text\<newline>References \<newline>abcdefghijklmnopqrstu  '' =
     [''abcdefghijklmnopqrstu'']"
proof -
  have f1: "\<forall>r\<in>set (extract_references txt). 20 < length (strip r)"
    by (auto simp: extract_references_body strip_strip split: option.splits)
  have f2: "extract_references txt =
     (case heading_body ''REFERENCES'' txt of
        None \<Rightarrow> []
      | Some b \<Rightarrow> map strip (filter (\<lambda>f. 20 < length (strip f)) (fragments b)))"
    by (rule extract_references_fragments)
  have f3: "\<not> has_boundary b \<longrightarrow> fragments b = [b]"
    by (simp add: fragments_def fragments_single)
  have f4: "heading_body ''REFERENCES'' txt = Some b \<and> \<not> has_boundary b \<longrightarrow>
      extract_references txt = (if 20 < length (strip b) then [strip b] else [])"
    using heading_single_fragment [of "txt" b] by blast
  have f5: "\<not> has_boundary block \<longrightarrow>
      extract_references (''REFERENCES'' @ nl # block) =
        (if 20 < length (strip block) then [strip block] else [])"
    using single_fragment [of block] by blast
  have f6: "extract_references ''REFERENCES\<newline>See appendix.'' = []"
    by (simp add: refs_simps)
  have f7: "extract_references ''REFERENCES\<newline>abcdefghijklmnopqrst  '' = []"
    by (simp add: refs_simps)
  have f8: "extract_references ''REFERENCES\<newline>abcdefghijklmnopqrstu  '' =
                 [''abcdefghijklmnopqrstu'']"
    by (simp add: refs_simps)
  have f9: "extract_references ''\<newline>--- Page 1 ---\<newline>Text\<newline>References\<newline>See appendix.'' = []"
    by (simp add: refs_simps)
  have f10: "extract_references ''\<newline>--- Page 1 ---\<newline>Text\<newline>References \<newline>abcdefghijklmnopqrst  '' = []"
    by (simp add: refs_simps)
  have f11: "extract_references ''\<newline>--- Page 1 ---\<newline>Text\<newline>References \<newline>abcdefghijklmnopqrstu  '' =
     [''abcdefghijklmnopqrstu'']"
    by (simp add: refs_simps)
  show ?thesis
    by (intro conjI; fact f1 f2 f3 f4 f5 f6 f7 f8 f9 f10 f11)
qed

theorem reference_fragments_witness:
  "extract_references
     ''REFERENCES\<newline>[1] A. Author, Title, 2020.\<newline>[2] B. Author, Other Title, 2019.'' =
     [''[1] A. Author, Title, 2020.'', ''[2] B. Author, Other Title, 2019.''] \<and>
   20 < length (strip ''[1] A. Author, Title, 2020.'') \<and>
   heading_body ''REFERENCES''
     ''\<newline>--- Page 1 ---\<newline>References\<newline>A. Author, Title of the work, 2020.'' =
     Some ''A. Author, Title of the work, 2020.'' \<and>
   \<not> has_boundary ''A. Author, Title of the work, 2020.'' \<and>
   fragments ''A. Author, Title of the work, 2020.'' = [''A. Author, Title of the work, 2020.''] \<and>
   extract_references
     ''\<newline>--- Page 1 ---\<newline>References\<newline>A. Author, Title of the work, 2020.'' =
     [''A. Author, Title of the work, 2020.''] \<and>
   \<not> has_boundary ''See appendix.'' \<and>
   extract_references (''REFERENCES'' @ nl # ''See appendix.'') = [] \<and>
   references (projr (fst (extract_pdf_content
     (text_pdf [''Title\<newline>References\<newline>[1] A. Author, Title, 2020.\<newline>[2] B. Author, Other Title, 2019.''])
     ''a.pdf'' init_state))) =
     [''[1] A. Author, Title, 2020.'', ''[2] B. Author, Other Title, 2019.'']"
proof -
  have a: "extract_references
     ''REFERENCES\<newline>[1] A. Author, Title, 2020.\<newline>[2] B. Author, Other Title, 2019.'' =
     [''[1] A. Author, Title, 2020.'', ''[2] B. Author, Other Title, 2019.'']"
    by (simp add: extract_references_body re_split.simps match_at_def ref_separator_def
        entry_ahead_def no_flags_def literal_ok_def lower_Char nl_def strip_def isspace_def
        isdecimal_def)
  have b: "heading_body ''REFERENCES''
     ''\<newline>--- Page 1 ---\<newline>References\<newline>A. Author, Title of the work, 2020.'' =
     Some ''A. Author, Title of the work, 2020.''"
    by (simp add: lower_Char nl_def isspace_def)
  have c: "\<not> has_boundary ''A. Author, Title of the work, 2020.''"
          "\<not> has_boundary ''See appendix.''"
    by (simp_all add: nl_def)
  have d: "references (projr (fst (extract_pdf_content
     (text_pdf [''Title\<newline>References\<newline>[1] A. Author, Title, 2020.\<newline>[2] B. Author, Other Title, 2019.''])
     ''a.pdf'' init_state))) =
     [''[1] A. Author, Title, 2020.'', ''[2] B. Author, Other Title, 2019.'']"
    by (simp add: run_simps page_marker_def str_nat_digit refs_simps year_close_def
          word_space_comma_def isalnum_def)
  note t1 = reference_fragments
    [of "''REFERENCES\<newline>[1] A. Author, Title, 2020.\<newline>[2] B. Author, Other Title, 2019.''"
        "''See appendix.''" "''See appendix.''"]
  note t2 = reference_fragments
    [of "''\<newline>--- Page 1 ---\<newline>References\<newline>A. Author, Title of the work, 2020.''"
        "''A. Author, Title of the work, 2020.''" "''See appendix.''"]
  from t1 [THEN conjunct1] a
  have e: "20 < length (strip ''[1] A. Author, Title, 2020.'')"
    by (simp only: list.set insert_iff ball_simps simp_thms)
  from t2 [THEN conjunct2, THEN conjunct2, THEN conjunct1] c(1)
  have f: "fragments ''A. Author, Title of the work, 2020.'' =
           [''A. Author, Title of the work, 2020.'']"
    by (simp only: simp_thms)
  have l: "20 < length (strip ''A. Author, Title of the work, 2020.'')"
    by (simp add: strip_def isspace_def)
  from t2 [THEN conjunct2, THEN conjunct2, THEN conjunct2, THEN conjunct1] b c(1) l
  have g: "extract_references
     ''\<newline>--- Page 1 ---\<newline>References\<newline>A. Author, Title of the work, 2020.'' =
     [''A. Author, Title of the work, 2020.'']"
    by (simp add: strip_def isspace_def)
  have m: "\<not> 20 < length (strip ''See appendix.'')"
    by (simp add: strip_def isspace_def)
  from t2 [THEN conjunct2, THEN conjunct2, THEN conjunct2, THEN conjunct2, THEN conjunct1] c(2) m
  have h: "extract_references (''REFERENCES'' @ nl # ''See appendix.'') = []"
    by (simp only: simp_thms if_False)
  show ?thesis
    by (intro conjI; fact a b c d e f g h)
qed

section \<open>Batch processing and the summary\<close>

subsection \<open>The result of an extraction does not depend on the state\<close>

lemma extract_tables_found:
  "tables_found (extract_tables n tb acc) =
     tables_found acc @ concat (map (\<lambda>t. case t of Inl err \<Rightarrow> [] | Inr d \<Rightarrow> [(n + 1, d)]) tb)"
  by (induction tb arbitrary: acc) (simp_all split: sum.splits)

lemma progress_eq:
  "full_text a = full_text b \<Longrightarrow> structured_sections a = structured_sections b \<Longrightarrow>
   tables_found a = tables_found b \<Longrightarrow> a\<lparr>warnings := []\<rparr> = b\<lparr>warnings := []\<rparr>"
  for a b :: progress
  by (cases a; cases b) simp

lemma page_loop_step:
  "get_text p = Inr t \<Longrightarrow> find_tables p = Inr tbls \<Longrightarrow>
   page_loop n (p # ps) acc =
     page_loop (n + 1) ps
       (extract_tables n tbls
          (acc\<lparr>full_text := full_text acc @ page_marker (n + 1) @ t,
               structured_sections :=
                 merge_sections (structured_sections acc) (identify_sections t)\<rparr>))"
  by (simp add: Let_def)

lemma page_loop_warnings:
  "full_text a = full_text b \<Longrightarrow> structured_sections a = structured_sections b \<Longrightarrow>
   tables_found a = tables_found b \<Longrightarrow>
   map_sum fst (\<lambda>a. a\<lparr>warnings := []\<rparr>) (page_loop n ps a) =
   map_sum fst (\<lambda>a. a\<lparr>warnings := []\<rparr>) (page_loop n ps b)"
proof (induction ps arbitrary: n a b)
  case Nil
  from progress_eq [OF Nil] show ?case by simp
next
  case (Cons p ps)
  show ?case
  proof (cases "get_text p")
    case (Inl err)
    then show ?thesis by simp
  next
    case t: (Inr t)
    show ?thesis
    proof (cases "find_tables p")
      case (Inl err)
      with t show ?thesis by (simp add: Let_def)
    next
      case (Inr tbls)
      let ?up = "\<lambda>acc. extract_tables n tbls
                   (acc\<lparr>full_text := full_text acc @ page_marker (n + 1) @ t,
                        structured_sections :=
                          merge_sections (structured_sections acc) (identify_sections t)\<rparr>)"
      have f: "full_text (?up a) = full_text (?up b)"
        using Cons.prems(1) by simp
      have s: "structured_sections (?up a) = structured_sections (?up b)"
        using Cons.prems(2) by simp
      have tf: "tables_found (?up a) = tables_found (?up b)"
        using Cons.prems(3) by (simp add: extract_tables_found)
      have "map_sum fst (\<lambda>a. a\<lparr>warnings := []\<rparr>) (page_loop (n + 1) ps (?up a)) =
            map_sum fst (\<lambda>a. a\<lparr>warnings := []\<rparr>) (page_loop (n + 1) ps (?up b))"
        by (rule Cons.IH [OF f s tf])
      then show ?thesis
        by (simp only: page_loop_step [OF t Inr])
    qed
  qed
qed

lemma extract_result:
  "fst (extract_pdf_content e f st) =
     (case fitz_open e f of
        Inl err \<Rightarrow> Inl err
      | Inr doc \<Rightarrow>
          (case map_sum fst (\<lambda>a. a\<lparr>warnings := []\<rparr>)
                  (page_loop 0 (pages doc)
                     \<lparr>full_text = [], structured_sections = [], tables_found = [], warnings = []\<rparr>) of
             Inl err \<Rightarrow> Inl err
           | Inr acc \<Rightarrow>
               Inr \<lparr>filename = path_name e f,
                    total_pages = length (pages doc),
                    text_content = full_text acc,
                    structured_content = structured_sections acc,
                    tables = tables_found acc,
                    figures = [],
                    references = extract_references (full_text acc),
                    metadata = doc_metadata doc\<rparr>))"
proof (cases "fitz_open e f")
  case (Inl err)
  then show ?thesis by (simp add: extract_pdf_content_def)
next
  case (Inr doc)
  let ?acc0 = "\<lparr>full_text = [], structured_sections = [], tables_found = [], warnings = []\<rparr>"
  have eq: "map_sum fst (\<lambda>a. a\<lparr>warnings := []\<rparr>) (page_loop 0 (pages doc) (?acc0\<lparr>warnings := logged st\<rparr>)) =
        map_sum fst (\<lambda>a. a\<lparr>warnings := []\<rparr>) (page_loop 0 (pages doc) ?acc0)"
    by (rule page_loop_warnings) simp_all
  show ?thesis
  proof (cases "page_loop 0 (pages doc) (?acc0\<lparr>warnings := logged st\<rparr>)")
    case l: (Inl x)
    with eq l show ?thesis
      by (cases x; cases "page_loop 0 (pages doc) ?acc0")
         (auto simp: extract_pdf_content_def Inr)
  next
    case r: (Inr acc)
    with eq obtain b where b: "page_loop 0 (pages doc) ?acc0 = Inr b"
      and ab: "acc\<lparr>warnings := []\<rparr> = b\<lparr>warnings := []\<rparr>"
      by (cases "page_loop 0 (pages doc) ?acc0") auto
    have "full_text acc = full_text b"
      using ab by (cases acc; cases b) simp
    moreover have "structured_sections acc = structured_sections b"
      using ab by (cases acc; cases b) simp
    moreover have "tables_found acc = tables_found b"
      using ab by (cases acc; cases b) simp
    ultimately show ?thesis using r b
      by (simp add: extract_pdf_content_def Inr Let_def)
  qed
qed

lemma extract_result_state:
  "fst (extract_pdf_content e f st) = fst (extract_pdf_content e f st')"
  by (simp add: extract_result)

subsection \<open>The loop over the files\<close>

lemma process_files_keys:
  "set (dict_keys (fst (process_files e fs results st))) =
     set (dict_keys results) \<union>
     path_name e ` {f \<in> set fs. \<not> isl (fst (extract_pdf_content e f st0))}"
proof (induction fs arbitrary: results st)
  case Nil
  show ?case by simp
next
  case (Cons f fs)
  obtain r st' where r: "extract_pdf_content e f st = (r, st')"
    by (cases "extract_pdf_content e f st")
  then have r0: "fst (extract_pdf_content e f st0) = r"
    using extract_result_state [of e f st0 st] by simp
  show ?case
  proof (cases r)
    case (Inl err)
    with r r0 Cons show ?thesis by auto
  next
    case (Inr c)
    with r r0 Cons show ?thesis by (auto simp: dict_keys_dict_set)
  qed
qed

lemma process_files_other:
  "n \<notin> path_name e ` set fs \<Longrightarrow>
   dict_get (fst (process_files e fs results st)) n = dict_get results n"
proof (induction fs arbitrary: results st)
  case Nil
  show ?case by simp
next
  case (Cons f fs)
  then show ?case
    by (cases "extract_pdf_content e f st"; cases "fst (extract_pdf_content e f st)")
       (auto simp: dict_get_dict_set)
qed

lemma process_files_get:
  "f \<in> set fs \<Longrightarrow> fst (extract_pdf_content e f st0) = Inr c \<Longrightarrow>
   \<forall>f'\<in>set fs. path_name e f' = path_name e f \<longrightarrow> f' = f \<Longrightarrow>
   dict_get (fst (process_files e fs results st)) (path_name e f) = Some c"
proof (induction fs arbitrary: results st)
  case Nil
  then show ?case by simp
next
  case (Cons g fs)
  obtain r st' where r: "extract_pdf_content e g st = (r, st')"
    by (cases "extract_pdf_content e g st")
  show ?case
  proof (cases "f \<in> set fs")
    case True
    with Cons.IH [OF True Cons.prems(2)] Cons.prems(3) r show ?thesis
      by (cases r) auto
  next
    case False
    with Cons.prems(1) have g: "g = f" by simp
    from False Cons.prems(3) have "path_name e f \<notin> path_name e ` set fs" by auto
    note other = process_files_other [OF this]
    from r g Cons.prems(2) extract_result_state [of e f st st0] have "r = Inr c" by simp
    with r g show ?thesis by (simp add: other dict_get_dict_set)
  qed
qed

text \<open>
  C7. \<open>process_multiple_pdfs\<close> always returns a mapping. For a directory without
  matching files the mapping is empty and a warning is logged. Otherwise its keys are
  the names of exactly the files whose extraction does not raise, whatever happened to
  the files before them, and the value under the name of such a file (when no other
  file has that name) is the document that the extraction returns.
\<close>

theorem batch_best_effort:
  "(glob_pdf e dir = [] \<longrightarrow>
      process_multiple_pdfs e dir st =
        ([], st\<lparr>logged := logged st @ [LogWarning (''No PDF files found in '' @ dir)]\<rparr>)) \<and>
   set (dict_keys (fst (process_multiple_pdfs e dir st))) =
     path_name e ` {f \<in> set (glob_pdf e dir). \<not> isl (fst (extract_pdf_content e f st))} \<and>
   (\<forall>f\<in>set (glob_pdf e dir). \<forall>c.
      fst (extract_pdf_content e f st) = Inr c \<and>
      (\<forall>f'\<in>set (glob_pdf e dir). path_name e f' = path_name e f \<longrightarrow> f' = f) \<longrightarrow>
      dict_get (fst (process_multiple_pdfs e dir st)) (path_name e f) = Some c)"
proof (cases "glob_pdf e dir = []")
  case True
  then show ?thesis by (simp add: process_multiple_pdfs_def)
next
  case False
  then have p: "process_multiple_pdfs e dir st = process_files e (glob_pdf e dir) [] st"
    by (simp add: process_multiple_pdfs_def)
  show ?thesis
    unfolding p using False process_files_keys [of e "glob_pdf e dir" "[]" st st]
    by (auto intro!: process_files_get)
qed

subsection \<open>The summary\<close>

lemma split_acc_count:
  "(isspace p \<longleftrightarrow> w = []) \<Longrightarrow>
   length (split_acc w s) =
     (if w = [] then 0 else 1) +
     length (filter (\<lambda>(before, c). isspace before \<and> \<not> isspace c) (zip (p # s) s))"
proof (induction s arbitrary: w p)
  case Nil
  show ?case by simp
next
  case (Cons c cs)
  show ?case
  proof (cases "isspace c")
    case True
    with Cons.IH [of c "[]"] Cons.prems show ?thesis by simp
  next
    case False
    with Cons.IH [of c "w @ [c]"] Cons.prems show ?thesis by simp
  qed
qed

lemma split_ws_count: "length (split_ws t) = token_count t"
  using split_acc_count [of "CHR '' ''" "[]" t]
  by (simp add: split_ws_def token_count_def isspace_def)

text \<open>
  C8. \<open>get_document_summary\<close> returns the empty mapping when the file name is not a
  key of the cache. When it is, the summary has exactly the six keys \<open>filename\<close>,
  \<open>pages\<close>, \<open>sections\<close>, \<open>tables_count\<close>, \<open>references_count\<close> and \<open>word_count\<close>, taken from
  the cached document, and \<open>word_count\<close> is the number of whitespace-delimited tokens
  of its full text.
\<close>

theorem document_summary:
  "(fname \<notin> set (dict_keys (processed_docs st)) \<longrightarrow> get_document_summary st fname = []) \<and>
   (\<forall>doc. dict_get (processed_docs st) fname = Some doc \<longrightarrow>
      get_document_summary st fname =
        [(''filename'', PyStr (filename doc)),
         (''pages'', PyInt (int (total_pages doc))),
         (''sections'', PyList (dict_keys (structured_content doc))),
         (''tables_count'', PyInt (int (length (tables doc)))),
         (''references_count'', PyInt (int (length (references doc)))),
         (''word_count'', PyInt (int (token_count (text_content doc))))])"
  by (auto simp: get_document_summary_def split_ws_count dict_get_None [symmetric])

theorem batch_best_effort_witness:
  "glob_pdf (text_pdf []) ''papers'' = [] \<and>
   process_multiple_pdfs (text_pdf []) ''papers'' init_state =
     ([], \<lparr>processed_docs = [], logged = [LogWarning ''No PDF files found in papers'']\<rparr>) \<and>
   isl (fst (extract_pdf_content
     \<lparr>fitz_open = (\<lambda>p. if p = ''bad.pdf'' then Inl (PyError ''broken'')
                        else Inr \<lparr>pages = [text_page ''x''], doc_metadata = []\<rparr>),
      glob_pdf = (\<lambda>d. [''bad.pdf'', ''good.pdf'']), path_name = (\<lambda>p. p)\<rparr> ''bad.pdf'' init_state)) \<and>
   dict_keys (fst (process_multiple_pdfs
     \<lparr>fitz_open = (\<lambda>p. if p = ''bad.pdf'' then Inl (PyError ''broken'')
                        else Inr \<lparr>pages = [text_page ''x''], doc_metadata = []\<rparr>),
      glob_pdf = (\<lambda>d. [''bad.pdf'', ''good.pdf'']), path_name = (\<lambda>p. p)\<rparr> ''papers'' init_state)) =
     [''good.pdf'']"
  using batch_best_effort [of "text_pdf []" "''papers''" init_state]
    batch_best_effort
      [of "\<lparr>fitz_open = (\<lambda>p. if p = ''bad.pdf'' then Inl (PyError ''broken'')
                              else Inr \<lparr>pages = [text_page ''x''], doc_metadata = []\<rparr>),
            glob_pdf = (\<lambda>d. [''bad.pdf'', ''good.pdf'']), path_name = (\<lambda>p. p)\<rparr>"
          "''papers''" init_state]
  by (simp add: process_multiple_pdfs_def run_simps eval_simps)

theorem document_summary_witness:
  "''missing.pdf'' \<notin> set (dict_keys (processed_docs init_state)) \<and>
   get_document_summary init_state ''missing.pdf'' = [] \<and>
   get_document_summary
     (snd (extract_pdf_content (text_pdf [''Hello  world'']) ''a.pdf'' init_state)) ''a.pdf'' =
     [(''filename'', PyStr ''a.pdf''), (''pages'', PyInt 1), (''sections'', PyList []),
      (''tables_count'', PyInt 0), (''references_count'', PyInt 0), (''word_count'', PyInt 6)]"
  using document_summary [of "''missing.pdf''" init_state]
    document_summary
      [of "''a.pdf''" "snd (extract_pdf_content (text_pdf [''Hello  world'']) ''a.pdf'' init_state)"]
  by (simp add: get_document_summary_def split_ws_def run_simps eval_simps page_marker_def
        str_nat_digit extract_references_body)

subsection \<open>Failure of the PDF library\<close>

lemma page_loop_error:
  "first_page_error ps = Some err \<Longrightarrow> \<exists>lg. page_loop n ps acc = Inl (err, lg)"
proof (induction ps arbitrary: n acc)
  case Nil
  then show ?case by simp
next
  case (Cons p ps)
  show ?case
  proof (cases "get_text p")
    case (Inl e1)
    with Cons.prems show ?thesis by simp
  next
    case t: (Inr t)
    show ?thesis
    proof (cases "find_tables p")
      case (Inl e2)
      with t Cons.prems show ?thesis by (simp add: Let_def)
    next
      case (Inr tbls)
      with t Cons.prems have "first_page_error ps = Some err" by simp
      from Cons.IH [OF this] show ?thesis by (simp only: page_loop_step [OF t Inr])
    qed
  qed
qed

lemma page_loop_success:
  "first_page_error ps = None \<Longrightarrow> \<exists>acc'. page_loop n ps acc = Inr acc'"
proof (induction ps arbitrary: n acc)
  case Nil
  then show ?case by simp
next
  case (Cons p ps)
  show ?case
  proof (cases "get_text p")
    case (Inl e1)
    with Cons.prems show ?thesis by simp
  next
    case t: (Inr t)
    show ?thesis
    proof (cases "find_tables p")
      case (Inl e2)
      with t Cons.prems show ?thesis by simp
    next
      case (Inr tbls)
      with t Cons.prems have "first_page_error ps = None" by simp
      from Cons.IH [OF this] show ?thesis by (simp only: page_loop_step [OF t Inr])
    qed
  qed
qed

text \<open>
  C6. When \<open>fitz.open\<close> raises, \<open>extract_pdf_content\<close> raises the same exception. When
  the file opens and the reading of a page raises (\<open>get_text\<close> or \<open>find_tables\<close>),
  \<open>extract_pdf_content\<close> raises the first such exception, in page order; when no page
  raises, it returns a document. Whenever \<open>extract_pdf_content\<close> raises, it returns no
  document and leaves the cache \<open>processed_docs\<close> as it was.
\<close>

theorem extract_failure_atomic:
  "(fitz_open e path = Inl err \<longrightarrow> fst (extract_pdf_content e path st) = Inl err) \<and>
   (\<forall>doc. fitz_open e path = Inr doc \<and> first_page_error (pages doc) = Some err \<longrightarrow>
      fst (extract_pdf_content e path st) = Inl err) \<and>
   (\<forall>doc. fitz_open e path = Inr doc \<and> first_page_error (pages doc) = None \<longrightarrow>
      \<not> isl (fst (extract_pdf_content e path st))) \<and>
   (isl (fst (extract_pdf_content e path st)) \<longrightarrow>
      processed_docs (snd (extract_pdf_content e path st)) = processed_docs st)"
proof -
  let ?acc0 = "\<lparr>full_text = [], structured_sections = [], tables_found = [], warnings = logged st\<rparr>"
  have a: "fst (extract_pdf_content e path st) = Inl err"
    if "fitz_open e path = Inr doc" "first_page_error (pages doc) = Some err" for doc
  proof -
    from page_loop_error [OF that(2)] obtain lg where "page_loop 0 (pages doc) ?acc0 = Inl (err, lg)"
      by blast
    with that(1) show ?thesis by (simp add: extract_pdf_content_def)
  qed
  have b: "\<not> isl (fst (extract_pdf_content e path st))"
    if "fitz_open e path = Inr doc" "first_page_error (pages doc) = None" for doc
  proof -
    from page_loop_success [OF that(2)] obtain acc where "page_loop 0 (pages doc) ?acc0 = Inr acc"
      by blast
    with that(1) show ?thesis by (simp add: extract_pdf_content_def Let_def)
  qed
  have c: "isl (fst (extract_pdf_content e path st)) \<longrightarrow>
      processed_docs (snd (extract_pdf_content e path st)) = processed_docs st"
    by (auto simp: extract_pdf_content_def Let_def split: sum.splits prod.splits)
  have d: "fitz_open e path = Inl err \<longrightarrow> fst (extract_pdf_content e path st) = Inl err"
    by (simp add: extract_pdf_content_def)
  from a b c d show ?thesis by blast
qed

theorem extract_failure_atomic_witness:
  "fitz_open \<lparr>fitz_open = (\<lambda>p. Inl (PyError ''cannot open file'')), glob_pdf = (\<lambda>d. []),
               path_name = (\<lambda>p. p)\<rparr> ''a.pdf'' = Inl (PyError ''cannot open file'') \<and>
   extract_pdf_content
     \<lparr>fitz_open = (\<lambda>p. Inl (PyError ''cannot open file'')), glob_pdf = (\<lambda>d. []),
      path_name = (\<lambda>p. p)\<rparr> ''a.pdf'' init_state =
     (Inl (PyError ''cannot open file''),
      \<lparr>processed_docs = [],
       logged = [LogError ''Error processing PDF a.pdf: cannot open file'']\<rparr>) \<and>
   first_page_error
     [text_page ''ABSTRACT\<newline>x'',
      \<lparr>get_text = Inl (PyError ''bad page''), find_tables = Inr []\<rparr>] = Some (PyError ''bad page'') \<and>
   fst (extract_pdf_content
     \<lparr>fitz_open = (\<lambda>p. Inr \<lparr>pages = [text_page ''ABSTRACT\<newline>x'',
                    \<lparr>get_text = Inl (PyError ''bad page''), find_tables = Inr []\<rparr>],
                  doc_metadata = []\<rparr>),
      glob_pdf = (\<lambda>d. []), path_name = (\<lambda>p. p)\<rparr> ''b.pdf'' init_state) = Inl (PyError ''bad page'') \<and>
   processed_docs (snd (extract_pdf_content
     \<lparr>fitz_open = (\<lambda>p. Inr \<lparr>pages = [text_page ''ABSTRACT\<newline>x'',
                    \<lparr>get_text = Inl (PyError ''bad page''), find_tables = Inr []\<rparr>],
                  doc_metadata = []\<rparr>),
      glob_pdf = (\<lambda>d. []), path_name = (\<lambda>p. p)\<rparr> ''b.pdf'' init_state)) = [] \<and>
   first_page_error [text_page ''x''] = None \<and>
   \<not> isl (fst (extract_pdf_content (text_pdf [''x'']) ''c.pdf'' init_state))"
  using extract_failure_atomic
    [of "\<lparr>fitz_open = (\<lambda>p. Inl (PyError ''cannot open file'')), glob_pdf = (\<lambda>d. []),
          path_name = (\<lambda>p. p)\<rparr>" "''a.pdf''" "PyError ''cannot open file''" init_state]
    extract_failure_atomic
    [of "\<lparr>fitz_open = (\<lambda>p. Inr \<lparr>pages = [text_page ''ABSTRACT\<newline>x'',
                    \<lparr>get_text = Inl (PyError ''bad page''), find_tables = Inr []\<rparr>],
                  doc_metadata = []\<rparr>),
      glob_pdf = (\<lambda>d. []), path_name = (\<lambda>p. p)\<rparr>" "''b.pdf''" "PyError ''bad page''" init_state]
    extract_failure_atomic [of "text_pdf [''x'']" "''c.pdf''" "PyError ''none''" init_state]
  by (simp add: run_simps eval_simps)

section \<open>The conversation history\<close>

text \<open>
  C10. After a call of \<open>_add_to_history\<close> the history has at most ten entries, and
  when the appended list exceeds ten entries the result is exactly its last ten
  entries, in their order.
\<close>

theorem add_to_history_bound:
  "length (add_to_history h q r) \<le> 10 \<and>
   (10 < length (h @ [\<lparr>query = q, response = r\<rparr>]) \<longrightarrow>
      length (add_to_history h q r) = 10 \<and>
      (\<exists>old. h @ [\<lparr>query = q, response = r\<rparr>] = old @ add_to_history h q r))"
proof -
  let ?h = "h @ [\<lparr>query = q, response = r\<rparr>]"
  have "?h = take (length ?h - 10) ?h @ drop (length ?h - 10) ?h"
    by (simp only: append_take_drop_id)
  then show ?thesis
    unfolding add_to_history_def Let_def by (auto simp del: append_take_drop_id)
qed

theorem add_to_history_bound_witness:
  "10 < length (replicate 10 \<lparr>query = ''a'', response = ''b''\<rparr> @ [\<lparr>query = ''q'', response = ''r''\<rparr>]) \<and>
   length (add_to_history (replicate 10 \<lparr>query = ''a'', response = ''b''\<rparr>) ''q'' ''r'') = 10"
  using add_to_history_bound [of "replicate 10 \<lparr>query = ''a'', response = ''b''\<rparr>" "''q''" "''r''"]
  by simp

end
